theory Spec2Isabelle
  imports Complex_Main
begin

section \<open>Data model of \<^verbatim>\<open>main.go\<close>\<close>

text \<open>
  \<^verbatim>\<open>type result struct { time int64; err error }\<close>.
  The field \<open>time\<close> is an \<^verbatim>\<open>int64\<close>, modelled as an \<open>int\<close>; where the program does
  \<^verbatim>\<open>int64\<close> arithmetic the wrap-around is written out with \<open>wrap64\<close>.  A Go \<^verbatim>\<open>error\<close>
  is \<open>None\<close> for \<^verbatim>\<open>nil\<close> and \<open>Some msg\<close> otherwise.
\<close>

record result =
  time :: int
  err :: "string option"

text \<open>Run-time panics of the Go program that the modelled code can raise.\<close>

datatype panic =
    IndexOutOfRange int nat
  | MakeSliceLenOutOfRange
  | IntegerDivideByZero

text \<open>
  What the program writes, one value per print statement.  Fixed ASCII lines are kept
  as strings; formatted lines keep their arguments:
  \<^item> \<open>YourIP a\<close>: \<^verbatim>\<open>fmt.Printf("\nYour IP is: %s\n", xorAddr.IP)\<close>
  \<^item> \<open>FirstRequestTime t\<close>: \<^verbatim>\<open>fmt.Printf("First request time: %d \<mu>s\n", r.time)\<close>
  \<^item> \<open>SuccessfulRequests n\<close>, \<open>FailedRequests n\<close>: the two count lines
  \<^item> \<open>TableTop\<close>, \<open>TableHead\<close>, \<open>TableSep\<close>, \<open>TableBottom\<close>: the box-drawing lines
  \<^item> \<open>TableRow l v\<close>: one percentile row with label \<open>l\<close> and value \<open>v\<close>
  \<^item> \<open>HistHeader\<close>: \<^verbatim>\<open>fmt.Println("\nLatency Distribution (\<mu>s):")\<close>
  \<^item> \<open>HistLine s e b c\<close>: \<^verbatim>\<open>fmt.Printf("%6d - %6d | %-40s | %d\n", start, end, bar, count)\<close>
    with \<open>b\<close> the number of block characters of the bar
  \<^item> \<open>BarNew n\<close>, \<open>BarAdd n\<close>: the calls to the progress bar
  \<^item> \<open>Stderr s\<close>: a line written to the error stream
\<close>

datatype out =
    Println string
  | YourIP string
  | FirstRequestTime int
  | SuccessfulRequests nat
  | FailedRequests nat
  | TableTop
  | TableHead
  | TableSep
  | TableRow string int
  | TableBottom
  | HistHeader
  | HistLine int int nat nat
  | BarNew int
  | BarAdd nat
  | Stderr string

section \<open>Machine arithmetic\<close>

subsection \<open>\<^verbatim>\<open>int64\<close>\<close>

definition wrap64 :: "int \<Rightarrow> int" where
  "wrap64 x = (x + 2 ^ 63) mod 2 ^ 64 - 2 ^ 63"

definition sub64 :: "int \<Rightarrow> int \<Rightarrow> int" where
  "sub64 a b = wrap64 (a - b)"

definition add64 :: "int \<Rightarrow> int \<Rightarrow> int" where
  "add64 a b = wrap64 (a + b)"

subsection \<open>\<^verbatim>\<open>float64\<close>\<close>

text \<open>
  An IEEE 754 binary64 value is a finite rational, an infinity or a NaN.  The sign of
  zero and the payload of a NaN are not modelled: the program never divides a non-zero
  value by a zero, which is the one place where the sign of zero would show.
\<close>

datatype f64 = Fin rat | PInf | NInf | NaN

text \<open>\<open>ilog2 x\<close> is the binary exponent of a positive rational: \<open>2 ^ e \<le> x < 2 ^ (e + 1)\<close>.\<close>

function ilog2 :: "rat \<Rightarrow> int" where
  "ilog2 x = (if x \<le> 0 then 0
              else if 2 \<le> x then ilog2 (x / 2) + 1
              else if x < 1 then ilog2 (x * 2) - 1
              else 0)"
  by pat_completeness auto
termination
proof (relation "measure (\<lambda>x. if 1 \<le> x then nat \<lfloor>x\<rfloor> else nat \<lceil>1 / x\<rceil>)", goal_cases)
  case 1
  then show ?case by simp
next
  case (2 x)
  then have "\<lfloor>x / 2\<rfloor> < \<lfloor>x\<rfloor>" by linarith
  with 2 show ?case by auto
next
  case (3 x)
  then have x: "0 < x" "x < 1" by auto
  show ?case
  proof (cases "1 \<le> x * 2")
    case True
    then have "\<lfloor>x * 2\<rfloor> = 1" using x by linarith
    moreover have "1 < 1 / x" using x by simp
    then have "2 \<le> \<lceil>1 / x\<rceil>" by linarith
    ultimately show ?thesis using x True by auto
  next
    case False
    define y where "y = 1 / x"
    define k where "k = \<lceil>y\<rceil>"
    have y: "2 < y" using False x by (simp add: y_def field_simps)
    have c: "y \<le> of_int k" unfolding k_def by (rule le_of_int_ceiling)
    then have "2 < (of_int k :: rat)" using y by linarith
    then have k3: "3 \<le> k" by linarith
    then have "(3::rat) \<le> of_int k" by linarith
    then have "y / 2 \<le> of_int (k - 1)" using c by simp
    then have "\<lceil>y / 2\<rceil> \<le> k - 1" by (rule ceiling_le)
    then have lt: "\<lceil>y / 2\<rceil> < \<lceil>y\<rceil>" by (simp add: k_def)
    have eq: "1 / (x * 2) = y / 2" by (simp add: y_def)
    have "\<lceil>1 / (x * 2)\<rceil> < \<lceil>1 / x\<rceil>"
      by (simp only: eq y_def [symmetric] lt)
    moreover have "0 < \<lceil>1 / x\<rceil>" using k3 by (simp only: y_def [symmetric] k_def [symmetric])
    ultimately have "nat \<lceil>1 / (x * 2)\<rceil> < nat \<lceil>1 / x\<rceil>" by linarith
    moreover have "\<not> 1 \<le> x" using x by simp
    ultimately show ?thesis using False by simp
  qed
qed

declare ilog2.simps [simp del]

definition pow2 :: "int \<Rightarrow> rat" where
  "pow2 e = (if 0 \<le> e then 2 ^ nat e else 1 / 2 ^ nat (- e))"

text \<open>Rounding a rational to the nearest integer, ties to the even one.\<close>

definition rne :: "rat \<Rightarrow> int" where
  "rne y = (let f = \<lfloor>y\<rfloor>; r = y - of_int f
            in if r < 1 / 2 then f
               else if 1 / 2 < r then f + 1
               else if even f then f else f + 1)"

text \<open>
  The spacing of binary64 values around a positive \<open>x\<close>: 52 fraction bits below the
  leading bit, and no exponent below \<open>-1022\<close> (the subnormal range).
\<close>

definition ulp :: "rat \<Rightarrow> rat" where
  "ulp x = pow2 (max (ilog2 x) (- 1022) - 52)"

definition rnd_pos :: "rat \<Rightarrow> rat" where
  "rnd_pos x = of_int (rne (x / ulp x)) * ulp x"

text \<open>Round to nearest, ties to even, before the overflow check.\<close>

definition rnd :: "rat \<Rightarrow> rat" where
  "rnd x = (if x = 0 then 0 else if 0 < x then rnd_pos x else - rnd_pos (- x))"

text \<open>
  The binary64 result of an operation whose exact result is \<open>x\<close>: a rounded value of
  exponent above 1023, that is of magnitude \<open>2 ^ 1024\<close> or more, overflows to an infinity.
\<close>

definition to_f64 :: "rat \<Rightarrow> f64" where
  "to_f64 x = (let r = rnd x
               in if 1023 < ilog2 \<bar>r\<bar> then (if 0 < r then PInf else NInf)
                  else Fin r)"

text \<open>\<^verbatim>\<open>float64(i)\<close> for an integer \<open>i\<close>.\<close>

definition f64_of_int :: "int \<Rightarrow> f64" where
  "f64_of_int i = to_f64 (of_int i)"

fun fmul :: "f64 \<Rightarrow> f64 \<Rightarrow> f64" where
  "fmul NaN _ = NaN"
| "fmul _ NaN = NaN"
| "fmul (Fin a) (Fin b) = to_f64 (a * b)"
| "fmul (Fin a) PInf = (if a = 0 then NaN else if 0 < a then PInf else NInf)"
| "fmul (Fin a) NInf = (if a = 0 then NaN else if 0 < a then NInf else PInf)"
| "fmul PInf (Fin b) = (if b = 0 then NaN else if 0 < b then PInf else NInf)"
| "fmul NInf (Fin b) = (if b = 0 then NaN else if 0 < b then NInf else PInf)"
| "fmul PInf PInf = PInf"
| "fmul PInf NInf = NInf"
| "fmul NInf PInf = NInf"
| "fmul NInf NInf = PInf"

fun fdiv :: "f64 \<Rightarrow> f64 \<Rightarrow> f64" where
  "fdiv NaN _ = NaN"
| "fdiv _ NaN = NaN"
| "fdiv (Fin a) (Fin b) =
     (if b = 0 then (if a = 0 then NaN else if 0 < a then PInf else NInf)
      else to_f64 (a / b))"
| "fdiv (Fin a) PInf = Fin 0"
| "fdiv (Fin a) NInf = Fin 0"
| "fdiv PInf (Fin b) = (if 0 \<le> b then PInf else NInf)"
| "fdiv NInf (Fin b) = (if 0 \<le> b then NInf else PInf)"
| "fdiv PInf PInf = NaN"
| "fdiv PInf NInf = NaN"
| "fdiv NInf PInf = NaN"
| "fdiv NInf NInf = NaN"

text \<open>\<^verbatim>\<open>math.Round\<close>: the nearest integer, halves away from zero; exact.\<close>

fun go_round :: "f64 \<Rightarrow> f64" where
  "go_round (Fin x) = Fin (of_int (if 0 \<le> x then \<lfloor>x + 1 / 2\<rfloor> else - \<lfloor>- x + 1 / 2\<rfloor>))"
| "go_round v = v"

text \<open>
  The conversions \<^verbatim>\<open>int(f)\<close> and \<^verbatim>\<open>int64(f)\<close> (\<^verbatim>\<open>int\<close> has 64 bits on the targets
  considered) drop the fraction.  For a value that \<^verbatim>\<open>int64\<close> cannot represent, a NaN
  included, the Go specification leaves the result to the implementation; the model
  takes that choice as the parameter \<open>cv\<close>.
\<close>

type_synonym conv = "f64 \<Rightarrow> int"

definition trunc :: "rat \<Rightarrow> int" where
  "trunc x = (if 0 \<le> x then \<lfloor>x\<rfloor> else \<lceil>x\<rceil>)"

fun int_of_f64 :: "conv \<Rightarrow> f64 \<Rightarrow> int" where
  "int_of_f64 cv (Fin x) =
     (if - (2 ^ 63) \<le> trunc x \<and> trunc x < 2 ^ 63 then trunc x else cv (Fin x))"
| "int_of_f64 cv v = cv v"

text \<open>
  The two common targets.  On amd64 the conversion instruction returns the "integer
  indefinite" value \<open>- 2 ^ 63\<close> for every unrepresentable input; on arm64 a NaN becomes
  0 and other values saturate.
\<close>

definition amd64 :: conv where
  "amd64 v = - (2 ^ 63)"

fun arm64 :: conv where
  "arm64 NaN = 0"
| "arm64 PInf = 2 ^ 63 - 1"
| "arm64 NInf = - (2 ^ 63)"
| "arm64 (Fin x) = (if 0 \<le> x then 2 ^ 63 - 1 else - (2 ^ 63))"

section \<open>The statistics reporter: \<^verbatim>\<open>printResults\<close> and \<^verbatim>\<open>percentile\<close>\<close>

text \<open>
  \<^verbatim>\<open>percentile(sorted []int64, p int) int64\<close>.  The index is computed in \<^verbatim>\<open>float64\<close>:
  \<^verbatim>\<open>int(math.Round(float64(len(sorted)-1) * float64(p) / 100))\<close>, and the slice access
  panics when the index is out of range.
\<close>

definition percentile_index :: "conv \<Rightarrow> nat \<Rightarrow> int \<Rightarrow> int" where
  "percentile_index cv n p =
     int_of_f64 cv (go_round (fdiv (fmul (f64_of_int (int n - 1)) (f64_of_int p)) (Fin 100)))"

definition percentile :: "conv \<Rightarrow> int list \<Rightarrow> int \<Rightarrow> panic + int" where
  "percentile cv sorted_times p =
     (let index = percentile_index cv (length sorted_times) p
      in if 0 \<le> index \<and> index < int (length sorted_times) then Inr (sorted_times ! nat index)
         else Inl (IndexOutOfRange index (length sorted_times)))"

text \<open>
  The rounding rule in the words of the specification: \<open>index = round ((n - 1) * p / 100)\<close>
  with halves rounded away from zero, on exact numbers.
\<close>

definition round_half_away :: "rat \<Rightarrow> int" where
  "round_half_away x = (if 0 \<le> x then \<lfloor>x + 1 / 2\<rfloor> else - \<lfloor>- x + 1 / 2\<rfloor>)"

text \<open>
  The first loop of \<^verbatim>\<open>printResults\<close>, \<^verbatim>\<open>for i, r := range results\<close>, with its three
  variables: \<^verbatim>\<open>successfulTimes\<close>, \<^verbatim>\<open>errorCount\<close> and what has been printed.
\<close>

fun results_loop :: "nat \<Rightarrow> result list \<Rightarrow> int list \<times> nat \<times> out list
    \<Rightarrow> int list \<times> nat \<times> out list" where
  "results_loop i [] st = st"
| "results_loop i (r # rs) (successfulTimes, errorCount, outs) =
     (if err r \<noteq> None then results_loop (Suc i) rs (successfulTimes, errorCount + 1, outs)
      else results_loop (Suc i) rs
             (successfulTimes @ [time r], errorCount,
              if i = 0 then outs @ [FirstRequestTime (time r)] else outs))"

text \<open>
  The table rows from \<open>p25\<close> on: each \<^verbatim>\<open>Printf\<close> evaluates its argument first, so a
  panic in \<^verbatim>\<open>percentile\<close> leaves the lines printed before it.
\<close>

fun percentile_rows :: "conv \<Rightarrow> int list \<Rightarrow> (string \<times> int) list \<Rightarrow> out list
    \<Rightarrow> out list \<times> panic option" where
  "percentile_rows cv sorted_times [] outs = (outs, None)"
| "percentile_rows cv sorted_times ((l, p) # ps) outs =
     (case percentile cv sorted_times p of
        Inl e \<Rightarrow> (outs, Some e)
      | Inr v \<Rightarrow> percentile_rows cv sorted_times ps (outs @ [TableRow l v]))"

text \<open>
  The part of \<^verbatim>\<open>printResults\<close> after \<^verbatim>\<open>sort.Slice\<close>: the counts and the table, read
  from the sorted times.
\<close>

definition print_table :: "conv \<Rightarrow> int list \<Rightarrow> nat \<Rightarrow> out list \<Rightarrow> out list \<times> panic option" where
  "print_table cv sorted_times errorCount outs =
     (let outs1 = outs @ [Println (CHR 0x0A # ''Results:''),
                          SuccessfulRequests (length sorted_times),
                          FailedRequests errorCount,
                          TableTop, TableHead, TableSep,
                          TableRow ''p0'' (sorted_times ! 0)]
      in (case percentile_rows cv sorted_times
                 [(''p25'', 25), (''p50'', 50), (''p75'', 75)] outs1 of
            (outs2, Some e) \<Rightarrow> (outs2, Some e)
          | (outs2, None) \<Rightarrow>
              (outs2 @ [TableRow ''p100'' (sorted_times ! (length sorted_times - 1)),
                        TableBottom], None)))"

text \<open>
  \<^verbatim>\<open>printResults(results []result)\<close>: what is printed, and the panic that ended it if
  there was one.  \<^verbatim>\<open>sort.Slice\<close> with the comparison \<open><\<close> on \<^verbatim>\<open>int64\<close> is \<open>sort\<close>.
\<close>

definition printResults :: "conv \<Rightarrow> result list \<Rightarrow> out list \<times> panic option" where
  "printResults cv results =
     (case results_loop 0 results ([], 0, []) of (successfulTimes, errorCount, outs) \<Rightarrow>
        if length successfulTimes = 0 then (outs @ [Println ''No successful requests''], None)
        else print_table cv (sort successfulTimes) errorCount outs)"

section \<open>The histogram renderer: \<^verbatim>\<open>printASCIIHistogram\<close>\<close>

text \<open>The first loop: the times of the results without error, in order.\<close>

fun hist_times :: "result list \<Rightarrow> int list \<Rightarrow> int list" where
  "hist_times [] successfulTimes = successfulTimes"
| "hist_times (r # rs) successfulTimes =
     (if err r = None then hist_times rs (successfulTimes @ [time r])
      else hist_times rs successfulTimes)"

text \<open>The second loop: \<^verbatim>\<open>minTime\<close> and \<^verbatim>\<open>maxTime\<close>, both started at the first time.\<close>

fun min_max_loop :: "int list \<Rightarrow> int \<times> int \<Rightarrow> int \<times> int" where
  "min_max_loop [] mm = mm"
| "min_max_loop (t # ts) (minTime, maxTime) =
     min_max_loop ts (if t < minTime then t else minTime, if t > maxTime then t else maxTime)"

definition numBuckets :: nat where
  "numBuckets = 20"

text \<open>\<^verbatim>\<open>bucketSize := float64(maxTime-minTime) / float64(numBuckets)\<close>\<close>

definition bucket_size :: "int \<Rightarrow> int \<Rightarrow> f64" where
  "bucket_size minTime maxTime =
     fdiv (f64_of_int (sub64 maxTime minTime)) (f64_of_int (int numBuckets))"

text \<open>
  The body of the third loop up to the array access:
  \<^verbatim>\<open>bucket := int(float64(t-minTime) / bucketSize); if bucket == numBuckets { bucket-- }\<close>
\<close>

definition bucket_of :: "conv \<Rightarrow> int \<Rightarrow> f64 \<Rightarrow> int \<Rightarrow> int" where
  "bucket_of cv minTime bucketSize t =
     (let bucket = int_of_f64 cv (fdiv (f64_of_int (sub64 t minTime)) bucketSize)
      in if bucket = int numBuckets then bucket - 1 else bucket)"

text \<open>The third loop; \<^verbatim>\<open>buckets[bucket]++\<close> panics on an index out of range.\<close>

fun fill_buckets :: "conv \<Rightarrow> int \<Rightarrow> f64 \<Rightarrow> int list \<Rightarrow> nat list \<Rightarrow> panic + nat list" where
  "fill_buckets cv minTime bucketSize [] buckets = Inr buckets"
| "fill_buckets cv minTime bucketSize (t # ts) buckets =
     (let bucket = bucket_of cv minTime bucketSize t
      in if 0 \<le> bucket \<and> bucket < int (length buckets)
         then fill_buckets cv minTime bucketSize ts
                (buckets[nat bucket := buckets ! nat bucket + 1])
         else Inl (IndexOutOfRange bucket (length buckets)))"

text \<open>The fourth loop: the largest count.\<close>

fun max_count_loop :: "nat list \<Rightarrow> nat \<Rightarrow> nat" where
  "max_count_loop [] maxCount = maxCount"
| "max_count_loop (c # cs) maxCount =
     max_count_loop cs (if c > maxCount then c else maxCount)"

text \<open>
  The last loop, one line per bucket: \<^verbatim>\<open>start := int64(float64(i)*bucketSize) + minTime\<close>,
  \<^verbatim>\<open>end := int64(float64(i+1)*bucketSize) + minTime\<close>, and a bar of
  \<^verbatim>\<open>count*40/maxCount\<close> blocks; the integer division panics on a zero divisor.
\<close>

fun hist_lines :: "conv \<Rightarrow> int \<Rightarrow> f64 \<Rightarrow> nat \<Rightarrow> nat \<Rightarrow> nat list \<Rightarrow> out list
    \<Rightarrow> out list \<times> panic option" where
  "hist_lines cv minTime bucketSize maxCount i [] outs = (outs, None)"
| "hist_lines cv minTime bucketSize maxCount i (c # cs) outs =
     (let start_t = add64 (int_of_f64 cv (fmul (f64_of_int (int i)) bucketSize)) minTime;
          end_t = add64 (int_of_f64 cv (fmul (f64_of_int (int i + 1)) bucketSize)) minTime
      in if maxCount = 0 then (outs, Some IntegerDivideByZero)
         else hist_lines cv minTime bucketSize maxCount (Suc i) cs
                (outs @ [HistLine start_t end_t (c * 40 div maxCount) c]))"

text \<open>The buckets of a non-empty list of times: the second and the third loop.\<close>

definition histogram_buckets :: "conv \<Rightarrow> int list \<Rightarrow> panic + nat list" where
  "histogram_buckets cv successfulTimes =
     (case min_max_loop successfulTimes (successfulTimes ! 0, successfulTimes ! 0) of
        (minTime, maxTime) \<Rightarrow>
          fill_buckets cv minTime (bucket_size minTime maxTime) successfulTimes
            (replicate numBuckets 0))"

definition printASCIIHistogram :: "conv \<Rightarrow> result list \<Rightarrow> out list \<times> panic option" where
  "printASCIIHistogram cv results =
     (let successfulTimes = hist_times results []
      in if length successfulTimes = 0 then ([], None)
         else
           case min_max_loop successfulTimes (successfulTimes ! 0, successfulTimes ! 0) of
             (minTime, maxTime) \<Rightarrow>
               let bucketSize = bucket_size minTime maxTime
               in (case fill_buckets cv minTime bucketSize successfulTimes
                          (replicate numBuckets 0) of
                     Inl e \<Rightarrow> ([], Some e)
                   | Inr buckets \<Rightarrow>
                       hist_lines cv minTime bucketSize (max_count_loop buckets 0) 0 buckets
                         [HistHeader]))"

section \<open>The runner: \<^verbatim>\<open>runSTUNRequests\<close>\<close>

text \<open>\<^verbatim>\<open>type config struct { stunHost string; runCount int; timeout time.Duration }\<close>\<close>

record config =
  stunHost :: string
  runCount :: int
  timeout :: int

text \<open>
  The STUN library and the clock are outside the program.  What they do in one run is
  given by an environment:
  \<^item> \<open>parse_uri\<close> and \<open>dial_uri\<close>: the error of \<^verbatim>\<open>stun.ParseURI\<close> and of
    \<^verbatim>\<open>stun.DialURI\<close> for a URI, \<open>None\<close> for success;
  \<^item> \<open>probes k\<close>: what the call number \<open>k\<close> of \<^verbatim>\<open>c.Do\<close> on the connection does: the
    error it returns, the event it passes to the callback if it calls it, and the
    microseconds that \<^verbatim>\<open>time.Since(start).Microseconds()\<close> then reads;
  \<^item> \<open>enough_memory n\<close>: whether the runtime obtains the memory of a slice of \<open>n\<close>
    outcomes when \<^verbatim>\<open>make\<close> asks for it.
  An event carries \<^verbatim>\<open>res.Error\<close> and the result of \<^verbatim>\<open>xorAddr.GetFrom(res.Message)\<close>:
  the address as text, or \<open>None\<close> when \<^verbatim>\<open>GetFrom\<close> fails.
\<close>

record event =
  ev_error :: "string option"
  xor_addr :: "string option"

record probe =
  do_err :: "string option"
  handler_event :: "event option"
  elapsed :: int

record env =
  parse_uri :: "string \<Rightarrow> string option"
  dial_uri :: "string \<Rightarrow> string option"
  probes :: "nat \<Rightarrow> probe"
  enough_memory :: "int \<Rightarrow> bool"

text \<open>
  The state of a run: the \<^verbatim>\<open>results\<close> slice, what has been printed, how many times
  \<^verbatim>\<open>c.Do\<close> has been called, and whether the deferred \<^verbatim>\<open>c.Close()\<close> has run.
\<close>

record run_state =
  st_results :: "result list"
  st_outs :: "out list"
  st_do_calls :: nat
  st_closed :: bool

text \<open>The callback given to \<^verbatim>\<open>c.Do\<close> in iteration \<open>i\<close>.\<close>

definition handler :: "int \<Rightarrow> event \<Rightarrow> run_state \<Rightarrow> run_state" where
  "handler i res st =
     (if ev_error res \<noteq> None then st
      else case xor_addr res of
             None \<Rightarrow> st
           | Some ip \<Rightarrow> if i = 0 then st\<lparr>st_outs := st_outs st @ [YourIP ip]\<rparr> else st)"

text \<open>\<^verbatim>\<open>c.Do\<close> runs the callback on the event it has, if it has one.\<close>

fun call_handler :: "int \<Rightarrow> event option \<Rightarrow> run_state \<Rightarrow> run_state" where
  "call_handler i None st = st"
| "call_handler i (Some res) st = handler i res st"

text \<open>
  The loop \<^verbatim>\<open>for i := 0; i < cfg.runCount; i++\<close>.  The assignment \<^verbatim>\<open>results[i] = ...\<close>
  panics on an index out of range.
\<close>

function run_loop :: "env \<Rightarrow> int \<Rightarrow> int \<Rightarrow> run_state \<Rightarrow> panic option \<times> run_state" where
  "run_loop e n i st =
     (if i < n then
        let pr = probes e (st_do_calls st);
            st1 = st\<lparr>st_do_calls := st_do_calls st + 1\<rparr>;
            st2 = call_handler i (handler_event pr) st1
        in if 0 \<le> i \<and> i < int (length (st_results st2))
           then run_loop e n (i + 1)
                  (st2\<lparr>st_results := (st_results st2)[nat i := \<lparr>time = elapsed pr, err = do_err pr\<rparr>],
                       st_outs := st_outs st2 @ [BarAdd 1]\<rparr>)
           else (Some (IndexOutOfRange i (length (st_results st2))), st2)
      else (None, st))"
  by pat_completeness auto
termination
  by (relation "measure (\<lambda>(e, n, i, st). nat (n - i))") auto

declare run_loop.simps [simp del]

text \<open>
  How a call of \<^verbatim>\<open>runSTUNRequests\<close> ends without a result: an error value, a panic,
  or the fatal error \<^verbatim>\<open>out of memory\<close> of the runtime.
\<close>

datatype failure = Error string | Panic panic | OutOfMemory

text \<open>
  The allocation \<^verbatim>\<open>make([]result, cfg.runCount)\<close>.  A \<^verbatim>\<open>result\<close> is an \<^verbatim>\<open>int64\<close> and an
  interface value, 24 bytes on a 64-bit target.  The runtime (\<^verbatim>\<open>makeslice\<close>) panics with
  \<^verbatim>\<open>len out of range\<close> when the length is negative or when length times element size
  is more than \<^verbatim>\<open>maxAlloc\<close>, which is \<open>2 ^ 48\<close> bytes on amd64 and arm64 (48-bit heap
  addresses).  A length that passes this test and is not 0 needs memory from the
  system; when there is none the runtime stops the process with a fatal error, which
  is not a panic: no deferred call runs.  A slice of length 0 needs no memory.
\<close>

definition result_size :: int where
  "result_size = 24"

definition maxAlloc :: int where
  "maxAlloc = 2 ^ 48"

text \<open>
  \<^verbatim>\<open>runSTUNRequests(cfg config) ([]result, error)\<close> with the state it leaves.  The
  deferred \<^verbatim>\<open>c.Close()\<close> runs on every return and every panic after a successful dial.
\<close>

definition init_state :: run_state where
  "init_state = \<lparr>st_results = [], st_outs = [], st_do_calls = 0, st_closed = False\<rparr>"

definition runSTUNRequests :: "env \<Rightarrow> config \<Rightarrow> (failure + result list) \<times> run_state" where
  "runSTUNRequests e cfg =
     (case parse_uri e (''stun:'' @ stunHost cfg) of
        Some msg \<Rightarrow> (Inl (Error (''failed to parse STUN URI: '' @ msg)), init_state)
      | None \<Rightarrow>
         (case dial_uri e (''stun:'' @ stunHost cfg) of
            Some msg \<Rightarrow> (Inl (Error (''failed to dial STUN server: '' @ msg)), init_state)
          | None \<Rightarrow>
              if runCount cfg < 0 \<or> maxAlloc < runCount cfg * result_size
              then (Inl (Panic MakeSliceLenOutOfRange), init_state\<lparr>st_closed := True\<rparr>)
              else if 0 < runCount cfg \<and> \<not> enough_memory e (runCount cfg)
              then (Inl OutOfMemory, init_state)
              else
               (case run_loop e (runCount cfg) 0
                       (init_state\<lparr>st_results := replicate (nat (runCount cfg)) \<lparr>time = 0, err = None\<rparr>,
                                   st_outs := [Println ''Starting STUN requests...'',
                                            BarNew (runCount cfg)]\<rparr>) of
                  (Some p, st) \<Rightarrow> (Inl (Panic p), st\<lparr>st_closed := True\<rparr>)
                | (None, st) \<Rightarrow>
                    (Inr (st_results st), st\<lparr>st_outs := st_outs st @ [Println ''''], st_closed := True\<rparr>))))"

section \<open>The program: \<^verbatim>\<open>main\<close>\<close>

text \<open>
  How the process ends: \<^verbatim>\<open>os.Exit(1)\<close> after a failed set-up, a crash on a panic, the
  fatal error of the runtime, and status 0 otherwise.  The configuration is what
  \<^verbatim>\<open>parseFlags\<close> returned.
\<close>

datatype ending = Exit nat | Crash panic | Fatal

definition main :: "env \<Rightarrow> conv \<Rightarrow> config \<Rightarrow> out list \<times> ending" where
  "main e cv cfg =
     (case runSTUNRequests e cfg of
        (Inl (Error msg), st) \<Rightarrow> (st_outs st @ [Stderr (''Error: '' @ msg)], Exit 1)
      | (Inl (Panic p), st) \<Rightarrow> (st_outs st, Crash p)
      | (Inl OutOfMemory, st) \<Rightarrow> (st_outs st, Fatal)
      | (Inr rs, st) \<Rightarrow>
          (case printResults cv rs of
             (o1, Some p) \<Rightarrow> (st_outs st @ o1, Crash p)
           | (o1, None) \<Rightarrow>
               (case printASCIIHistogram cv rs of
                  (o2, Some p) \<Rightarrow> (st_outs st @ o1 @ o2, Crash p)
                | (o2, None) \<Rightarrow> (st_outs st @ o1 @ o2, Exit 0))))"

text \<open>
  Environments and configurations used as concrete inputs below, with the default host
  and a machine that has memory for \<open>2 ^ 30\<close> outcomes:
  \<^item> \<open>env_ok\<close>: a server that answers every request;
  \<^item> \<open>env_first_lost\<close>: the first request cannot be written to the connection, so
    \<^verbatim>\<open>c.Do\<close> returns the error of the write and never calls the callback; every later
    request is answered;
  \<^item> \<open>env_first_timeout\<close>: the first request gets no answer in time.  The library then
    returns \<^verbatim>\<open>nil\<close> from \<^verbatim>\<open>c.Do\<close> and gives the error to the callback in \<^verbatim>\<open>res.Error\<close>;
    every later request is answered.
\<close>

definition answer :: probe where
  "answer = \<lparr>do_err = None,
             handler_event = Some \<lparr>ev_error = None, xor_addr = Some ''203.0.113.7''\<rparr>,
             elapsed = 17\<rparr>"

definition write_failed :: probe where
  "write_failed = \<lparr>do_err = Some ''write: connection refused'', handler_event = None,
                   elapsed = 120\<rparr>"

definition timed_out :: probe where
  "timed_out = \<lparr>do_err = None,
                handler_event = Some \<lparr>ev_error = Some ''transaction is timed out'', xor_addr = None\<rparr>,
                elapsed = 5000000\<rparr>"

definition env_ok :: env where
  "env_ok = \<lparr>parse_uri = (\<lambda>u. None), dial_uri = (\<lambda>u. None), probes = (\<lambda>k. answer),
             enough_memory = (\<lambda>n. n \<le> 2 ^ 30)\<rparr>"

definition env_first_lost :: env where
  "env_first_lost = \<lparr>parse_uri = (\<lambda>u. None), dial_uri = (\<lambda>u. None),
                     probes = (\<lambda>k. if k = 0 then write_failed else answer),
                     enough_memory = (\<lambda>n. n \<le> 2 ^ 30)\<rparr>"

definition env_first_timeout :: env where
  "env_first_timeout = \<lparr>parse_uri = (\<lambda>u. None), dial_uri = (\<lambda>u. None),
                        probes = (\<lambda>k. if k = 0 then timed_out else answer),
                        enough_memory = (\<lambda>n. n \<le> 2 ^ 30)\<rparr>"

definition cfg_runs :: "int \<Rightarrow> config" where
  "cfg_runs n = \<lparr>stunHost = ''stun.cloudflare.com:3478'', runCount = n, timeout = 5000000000\<rparr>"

section \<open>Notions of the specification used in the statements\<close>

text \<open>The successful elapsed-times of an outcome sequence, in order.\<close>

definition successful_times :: "result list \<Rightarrow> int list" where
  "successful_times results = map time (filter (\<lambda>r. err r = None) results)"

text \<open>The count shown on a histogram line.\<close>

fun hist_count :: "out \<Rightarrow> nat" where
  "hist_count (HistLine s e b c) = c"
| "hist_count _ = 0"

text \<open>
  The bucket rule in the words of the specification, for the minimum \<open>mn\<close> and the
  maximum \<open>mx\<close>: the width is \<open>(max - min) / 20\<close> in floating point, the index of a
  sample is \<open>floor ((sample - min) / width)\<close>, and an index of 20 becomes 19.  Every
  number is a \<^verbatim>\<open>float64\<close>: a conversion and a division round to the nearest one.
\<close>

definition spec_width :: "int \<Rightarrow> int \<Rightarrow> rat" where
  "spec_width mn mx = rnd (rnd (of_int (mx - mn)) / 20)"

definition spec_bucket :: "int \<Rightarrow> int \<Rightarrow> int \<Rightarrow> int" where
  "spec_bucket mn mx t =
     (let raw = \<lfloor>rnd (rnd (of_int (t - mn)) / spec_width mn mx)\<rfloor>
      in if raw = 20 then 19 else raw)"

text \<open>The largest quotient that can come out of the division by the bucket width.\<close>

definition qmax :: rat where
  "qmax = 20 + 1 / 2 ^ 48"


section \<open>The reporters on a store\<close>

text \<open>
  A Go slice is a window on a backing array, and two slices can share one.  To state
  what the reporters leave untouched, the two functions are modelled a second time
  on an explicit store: arrays of cells by address, with \<open>h_fresh\<close> the next address that
  an allocation returns.  A cell is a \<^verbatim>\<open>result\<close> struct or an integer (an \<^verbatim>\<open>int64\<close> time
  or an \<^verbatim>\<open>int\<close> count).
\<close>

datatype cell = Res result | I64 int

fun i64_of :: "cell \<Rightarrow> int" where
  "i64_of (I64 x) = x"
| "i64_of (Res r) = 0"

record heap =
  h_arrays :: "nat \<Rightarrow> cell list option"
  h_fresh :: nat

text \<open>
  A slice header: the address of the backing array (\<open>None\<close> for a \<^verbatim>\<open>nil\<close> slice), the
  offset of its first element in the array, its length and its capacity.
\<close>

record slice =
  s_base :: "nat option"
  s_off :: nat
  s_len :: nat
  s_cap :: nat

definition nil_slice :: slice where
  "nil_slice = \<lparr>s_base = None, s_off = 0, s_len = 0, s_cap = 0\<rparr>"

text \<open>The backing array of a slice, its elements, and a read with its bounds check.\<close>

definition backing :: "heap \<Rightarrow> slice \<Rightarrow> cell list" where
  "backing h s = (case s_base s of None \<Rightarrow> [] | Some a \<Rightarrow> (case h_arrays h a of None \<Rightarrow> [] | Some cs \<Rightarrow> cs))"

definition contents :: "heap \<Rightarrow> slice \<Rightarrow> cell list" where
  "contents h s = take (s_len s) (drop (s_off s) (backing h s))"

definition load :: "heap \<Rightarrow> slice \<Rightarrow> nat \<Rightarrow> cell option" where
  "load h s i =
     (if i < s_len s \<and> s_off s + i < length (backing h s)
      then Some (backing h s ! (s_off s + i)) else None)"

text \<open>The assignment \<^verbatim>\<open>s[i] = v\<close>, on the backing array, in place.\<close>

definition store :: "slice \<Rightarrow> nat \<Rightarrow> cell \<Rightarrow> heap \<Rightarrow> heap" where
  "store s i v h =
     (case s_base s of
        None \<Rightarrow> h
      | Some a \<Rightarrow> h\<lparr>h_arrays := (h_arrays h)(a \<mapsto> (backing h s)[s_off s + i := v])\<rparr>)"

text \<open>A new array, as \<^verbatim>\<open>make\<close> and a growing \<^verbatim>\<open>append\<close> allocate it.\<close>

definition alloc :: "cell list \<Rightarrow> heap \<Rightarrow> slice \<times> heap" where
  "alloc cs h =
     (\<lparr>s_base = Some (h_fresh h), s_off = 0, s_len = length cs, s_cap = length cs\<rparr>,
      h\<lparr>h_arrays := (h_arrays h)(h_fresh h \<mapsto> cs), h_fresh := h_fresh h + 1\<rparr>)"

text \<open>
  \<^verbatim>\<open>append(s, x)\<close> on a slice of \<^verbatim>\<open>int64\<close>: with spare capacity the element is written
  into the backing array in place; otherwise the elements are copied to a new array
  of a larger capacity, whose size the runtime chooses (the parameter \<open>grow\<close>).
\<close>

definition append_st :: "(nat \<Rightarrow> nat) \<Rightarrow> slice \<Rightarrow> int \<Rightarrow> heap \<Rightarrow> slice \<times> heap" where
  "append_st grow s x h =
     (if s_len s < s_cap s
      then (s\<lparr>s_len := s_len s + 1\<rparr>, store s (s_len s) (I64 x) h)
      else
        let newcap = max (s_len s + 1) (grow (s_cap s))
        in case alloc (contents h s @ I64 x # replicate (newcap - (s_len s + 1)) (I64 0)) h of
             (s', h') \<Rightarrow> (s'\<lparr>s_len := s_len s + 1\<rparr>, h'))"

text \<open>
  \<^verbatim>\<open>sort.Slice\<close> with the comparison \<open><\<close> on \<^verbatim>\<open>int64\<close>: the elements of the slice are
  put in order in place; the rest of the backing array stays.
\<close>

definition sort_st :: "slice \<Rightarrow> heap \<Rightarrow> heap" where
  "sort_st s h =
     (case s_base s of
        None \<Rightarrow> h
      | Some a \<Rightarrow>
          h\<lparr>h_arrays := (h_arrays h)(a \<mapsto>
               take (s_off s) (backing h s)
               @ map I64 (sort (map i64_of (contents h s)))
               @ drop (s_off s + s_len s) (backing h s))\<rparr>)"

text \<open>
  The loops of the reporters that read one slice while they write another, step by
  step on the store: \<^verbatim>\<open>range\<close> evaluates the length once and reads element \<open>i\<close> in
  iteration \<open>i\<close>.  The loops that only read are the functions of the sections above,
  applied to the elements of the slice.
\<close>

fun results_loop_st :: "(nat \<Rightarrow> nat) \<Rightarrow> slice \<Rightarrow> nat list \<Rightarrow> slice \<times> nat \<times> out list \<times> heap
    \<Rightarrow> panic option \<times> slice \<times> nat \<times> out list \<times> heap" where
  "results_loop_st grow results [] st = (None, st)"
| "results_loop_st grow results (i # is) (successfulTimes, errorCount, outs, h) =
     (case load h results i of
        Some (Res r) \<Rightarrow>
          if err r \<noteq> None
          then results_loop_st grow results is (successfulTimes, errorCount + 1, outs, h)
          else (case append_st grow successfulTimes (time r) h of
                  (successfulTimes', h') \<Rightarrow>
                    results_loop_st grow results is
                      (successfulTimes', errorCount,
                       if i = 0 then outs @ [FirstRequestTime (time r)] else outs, h'))
      | _ \<Rightarrow> (Some (IndexOutOfRange (int i) (s_len results)),
              successfulTimes, errorCount, outs, h))"

definition printResults_st :: "conv \<Rightarrow> (nat \<Rightarrow> nat) \<Rightarrow> slice \<Rightarrow> heap
    \<Rightarrow> (out list \<times> panic option) \<times> heap" where
  "printResults_st cv grow results h =
     (case results_loop_st grow results [0..<s_len results] (nil_slice, 0, [], h) of
        (Some p, successfulTimes, errorCount, outs, h1) \<Rightarrow> ((outs, Some p), h1)
      | (None, successfulTimes, errorCount, outs, h1) \<Rightarrow>
          if s_len successfulTimes = 0
          then ((outs @ [Println ''No successful requests''], None), h1)
          else
            let h2 = sort_st successfulTimes h1
            in (print_table cv (map i64_of (contents h2 successfulTimes)) errorCount outs, h2))"

fun hist_times_st :: "(nat \<Rightarrow> nat) \<Rightarrow> slice \<Rightarrow> nat list \<Rightarrow> slice \<times> heap
    \<Rightarrow> panic option \<times> slice \<times> heap" where
  "hist_times_st grow results [] st = (None, st)"
| "hist_times_st grow results (i # is) (successfulTimes, h) =
     (case load h results i of
        Some (Res r) \<Rightarrow>
          if err r = None
          then hist_times_st grow results is (append_st grow successfulTimes (time r) h)
          else hist_times_st grow results is (successfulTimes, h)
      | _ \<Rightarrow> (Some (IndexOutOfRange (int i) (s_len results)), successfulTimes, h))"

fun fill_buckets_st :: "conv \<Rightarrow> int \<Rightarrow> f64 \<Rightarrow> slice \<Rightarrow> nat list \<Rightarrow> slice \<Rightarrow> heap
    \<Rightarrow> panic option \<times> heap" where
  "fill_buckets_st cv minTime bucketSize successfulTimes [] buckets h = (None, h)"
| "fill_buckets_st cv minTime bucketSize successfulTimes (i # is) buckets h =
     (case load h successfulTimes i of
        None \<Rightarrow> (Some (IndexOutOfRange (int i) (s_len successfulTimes)), h)
      | Some c \<Rightarrow>
          let bucket = bucket_of cv minTime bucketSize (i64_of c)
          in (case (if 0 \<le> bucket then load h buckets (nat bucket) else None) of
                None \<Rightarrow> (Some (IndexOutOfRange bucket (s_len buckets)), h)
              | Some n \<Rightarrow>
                  fill_buckets_st cv minTime bucketSize successfulTimes is buckets
                    (store buckets (nat bucket) (I64 (i64_of n + 1)) h)))"

definition printASCIIHistogram_st :: "conv \<Rightarrow> (nat \<Rightarrow> nat) \<Rightarrow> slice \<Rightarrow> heap
    \<Rightarrow> (out list \<times> panic option) \<times> heap" where
  "printASCIIHistogram_st cv grow results h =
     (case hist_times_st grow results [0..<s_len results] (nil_slice, h) of
        (Some p, successfulTimes, h1) \<Rightarrow> (([], Some p), h1)
      | (None, successfulTimes, h1) \<Rightarrow>
          if s_len successfulTimes = 0 then (([], None), h1)
          else
            let ts = map i64_of (contents h1 successfulTimes)
            in (case min_max_loop ts (ts ! 0, ts ! 0) of
                  (minTime, maxTime) \<Rightarrow>
                    let bucketSize = bucket_size minTime maxTime
                    in (case alloc (replicate numBuckets (I64 0)) h1 of
                          (buckets, h2) \<Rightarrow>
                            (case fill_buckets_st cv minTime bucketSize successfulTimes
                                    [0..<s_len successfulTimes] buckets h2 of
                               (Some p, h3) \<Rightarrow> (([], Some p), h3)
                             | (None, h3) \<Rightarrow>
                                 let counts = map (nat \<circ> i64_of) (contents h3 buckets)
                                 in (hist_lines cv minTime bucketSize (max_count_loop counts 0) 0
                                       counts [HistHeader], h3)))))"

text \<open>
  \<open>own f h s\<close>: the slice \<open>s\<close> is \<^verbatim>\<open>nil\<close> or lies within an array allocated at an
  address from \<open>f\<close> on.  \<open>kept f h h'\<close>: every array below \<open>f\<close> is the same in \<open>h'\<close> as
  in \<open>h\<close>.  \<open>holds h rs results\<close>: the slice \<open>rs\<close> is a slice of the store \<open>h\<close> whose
  elements are the outcome sequence \<open>results\<close>.
\<close>

definition own :: "nat \<Rightarrow> heap \<Rightarrow> slice \<Rightarrow> bool" where
  "own f h s \<longleftrightarrow>
     s_len s \<le> s_cap s
     \<and> (case s_base s of
          None \<Rightarrow> s_cap s = 0
        | Some a \<Rightarrow> f \<le> a \<and> a < h_fresh h \<and> s_off s + s_cap s \<le> length (backing h s))"

definition kept :: "nat \<Rightarrow> heap \<Rightarrow> heap \<Rightarrow> bool" where
  "kept f h h' \<longleftrightarrow> h_fresh h \<le> h_fresh h' \<and> (\<forall>a < f. h_arrays h' a = h_arrays h a)"

definition holds :: "heap \<Rightarrow> slice \<Rightarrow> result list \<Rightarrow> bool" where
  "holds h rs results \<longleftrightarrow>
     (\<exists>a. s_base rs = Some a \<and> a < h_fresh h)
     \<and> s_off rs + s_len rs \<le> length (backing h rs)
     \<and> contents h rs = map Res results"

text \<open>A store with one outcome sequence of four probes, used as a concrete input.\<close>

definition heap_example :: heap where
  "heap_example =
     \<lparr>h_arrays = (\<lambda>a. if a = 0
                      then Some [Res \<lparr>time = 30, err = None\<rparr>,
                                 Res \<lparr>time = 7, err = Some ''timeout''\<rparr>,
                                 Res \<lparr>time = 10, err = None\<rparr>,
                                 Res \<lparr>time = 20, err = None\<rparr>]
                      else None),
      h_fresh = 1\<rparr>"

definition slice_example :: slice where
  "slice_example = \<lparr>s_base = Some 0, s_off = 0, s_len = 4, s_cap = 4\<rparr>"

definition double_cap :: "nat \<Rightarrow> nat" where
  "double_cap c = 2 * c"


section \<open>The loops of the two reporters\<close>

lemma results_loop_lengths:
  "results_loop i results (successfulTimes, errorCount, outs) = (successfulTimes', errorCount', outs')
   \<Longrightarrow> length successfulTimes' + errorCount' = length successfulTimes + errorCount + length results"
proof (induction results arbitrary: i successfulTimes errorCount outs)
  case Nil
  then show ?case by simp
next
  case (Cons r rs)
  show ?case
  proof (cases "err r")
    case None
    with Cons.prems Cons.IH [of "Suc i" "successfulTimes @ [time r]" errorCount] show ?thesis
      by fastforce
  next
    case (Some e)
    with Cons.prems Cons.IH [of "Suc i" successfulTimes "errorCount + 1" outs] show ?thesis
      by simp
  qed
qed

lemma results_loop_all_failed:
  "\<forall>r \<in> set results. err r \<noteq> None
   \<Longrightarrow> results_loop i results (successfulTimes, errorCount, outs)
       = (successfulTimes, errorCount + length results, outs)"
  by (induction results arbitrary: i errorCount) auto

lemma hist_times_all_failed:
  "\<forall>r \<in> set results. err r \<noteq> None \<Longrightarrow> hist_times results acc = acc"
  by (induction results arbitrary: acc) auto

lemma hist_times_filter:
  "hist_times results acc = acc @ map time (filter (\<lambda>r. err r = None) results)"
  by (induction results arbitrary: acc) auto

lemma results_loop_times:
  "fst (results_loop i results (successfulTimes, errorCount, outs))
     = successfulTimes @ map time (filter (\<lambda>r. err r = None) results)"
  by (induction results arbitrary: i successfulTimes errorCount outs) auto

section \<open>Counts of the statistics reporter\<close>

lemma results_loop_outs_kind:
  assumes "results_loop i results (ts, e, outs) = (ts', e', outs')" and "x \<in> set outs'"
  shows "x \<in> set outs \<or> (\<exists>t. x = FirstRequestTime t)"
  using assms
proof (induction results arbitrary: i ts e outs)
  case Nil
  then show ?case by simp
next
  case (Cons r rs)
  show ?case
  proof (cases "err r")
    case (Some msg)
    with Cons.prems Cons.IH [of "Suc i" ts "e + 1" outs] show ?thesis by simp
  next
    case None
    with Cons.prems
      Cons.IH [of "Suc i" "ts @ [time r]" e "if i = 0 then outs @ [FirstRequestTime (time r)] else outs"]
    show ?thesis by (auto split: if_splits)
  qed
qed

lemma percentile_rows_outs:
  "\<exists>rows. fst (percentile_rows cv xs ps outs) = outs @ rows
     \<and> (\<forall>x \<in> set rows. \<exists>l v. x = TableRow l v)"
proof (induction ps arbitrary: outs)
  case Nil
  then show ?case by simp
next
  case (Cons lp ps)
  obtain l p where lp: "lp = (l, p)" by (cases lp) auto
  show ?case
  proof (cases "percentile cv xs p")
    case (Inl e)
    then show ?thesis by (simp add: lp)
  next
    case (Inr v)
    from Cons.IH [of "outs @ [TableRow l v]"]
    obtain rows where "fst (percentile_rows cv xs ps (outs @ [TableRow l v]))
        = (outs @ [TableRow l v]) @ rows" and "\<forall>x \<in> set rows. \<exists>l v. x = TableRow l v"
      by blast
    then have "fst (percentile_rows cv xs (lp # ps) outs) = outs @ (TableRow l v # rows)
        \<and> (\<forall>x \<in> set (TableRow l v # rows). \<exists>l v. x = TableRow l v)"
      using Inr by (simp add: lp)
    then show ?thesis by blast
  qed
qed

lemma print_table_counts:
  assumes "\<forall>x \<in> set outs. \<exists>t. x = FirstRequestTime t"
  shows "SuccessfulRequests n \<in> set (fst (print_table cv xs e outs)) \<longleftrightarrow> n = length xs"
    and "FailedRequests m \<in> set (fst (print_table cv xs e outs)) \<longleftrightarrow> m = e"
proof -
  define o1 where "o1 = outs @ [Println (CHR 0x0A # ''Results:''),
      SuccessfulRequests (length xs), FailedRequests e,
      TableTop, TableHead, TableSep, TableRow ''p0'' (xs ! 0)]"
  obtain rows where rows: "fst (percentile_rows cv xs [(''p25'', 25), (''p50'', 50), (''p75'', 75)] o1)
      = o1 @ rows" "\<forall>x \<in> set rows. \<exists>l v. x = TableRow l v"
    using percentile_rows_outs [of cv xs _ o1] by blast
  obtain o2 p2 where pr: "percentile_rows cv xs [(''p25'', 25), (''p50'', 50), (''p75'', 75)] o1
      = (o2, p2)"
    by (cases "percentile_rows cv xs [(''p25'', 25), (''p50'', 50), (''p75'', 75)] o1") auto
  have o2: "o2 = o1 @ rows" using rows(1) pr by simp
  have "set (fst (print_table cv xs e outs)) = set o2
      \<or> set (fst (print_table cv xs e outs))
          = set o2 \<union> {TableRow ''p100'' (xs ! (length xs - 1)), TableBottom}"
    unfolding print_table_def Let_def o1_def [symmetric] pr by (cases p2) auto
  then show "SuccessfulRequests n \<in> set (fst (print_table cv xs e outs)) \<longleftrightarrow> n = length xs"
    and "FailedRequests m \<in> set (fst (print_table cv xs e outs)) \<longleftrightarrow> m = e"
    using assms rows(2) unfolding o2 o1_def by auto
qed

text \<open>
  Claim C5.  For every outcome sequence, the number of successful times collected by the
  loop of \<^verbatim>\<open>printResults\<close> (\<^verbatim>\<open>len(successfulTimes)\<close>) plus its \<^verbatim>\<open>errorCount\<close> equals
  the length of the sequence.  These are the counts it reports: whenever
  \<^verbatim>\<open>printResults\<close> prints a line \<^verbatim>\<open>Successful requests: n\<close> and a line
  \<^verbatim>\<open>Failed requests: m\<close>, \<open>n + m\<close> is the length of the sequence, and it prints both
  lines when there is a success.
\<close>

theorem successes_plus_failures:
  "length (fst (results_loop 0 results ([], 0, [])))
     + fst (snd (results_loop 0 results ([], 0, []))) = length results
   \<and> (\<forall>n m. SuccessfulRequests n \<in> set (fst (printResults cv results))
            \<and> FailedRequests m \<in> set (fst (printResults cv results))
          \<longrightarrow> n + m = length results)
   \<and> (successful_times results \<noteq> []
        \<longrightarrow> (\<exists>n m. SuccessfulRequests n \<in> set (fst (printResults cv results))
                 \<and> FailedRequests m \<in> set (fst (printResults cv results))))"
proof -
  obtain s e os where run: "results_loop 0 results ([], 0, []) = (s, e, os)"
    by (cases "results_loop 0 results ([], 0, [])") auto
  from results_loop_lengths [OF run] have sum: "length s + e = length results" by simp
  have s: "s = successful_times results"
    using results_loop_times [of 0 results "[]" 0 "[]"] run by (simp add: successful_times_def)
  have kind: "\<forall>x \<in> set os. \<exists>t. x = FirstRequestTime t"
    using results_loop_outs_kind [OF run] by auto
  show ?thesis
  proof (cases "s = []")
    case True
    then have "fst (printResults cv results) = os @ [Println ''No successful requests'']"
      by (simp add: printResults_def run)
    then show ?thesis using kind sum run True s by auto
  next
    case False
    then have p: "printResults cv results = print_table cv (sort s) e os"
      by (simp add: printResults_def run)
    note c = print_table_counts [OF kind, of _ cv "sort s" e]
    show ?thesis using sum run c False unfolding p by auto
  qed
qed

theorem successes_plus_failures_witness:
  "successful_times [\<lparr>time = 30, err = None\<rparr>, \<lparr>time = 7, err = Some ''timeout''\<rparr>,
      \<lparr>time = 10, err = None\<rparr>] \<noteq> []
   \<and> SuccessfulRequests 2 \<in> set (fst (printResults amd64
        [\<lparr>time = 30, err = None\<rparr>, \<lparr>time = 7, err = Some ''timeout''\<rparr>, \<lparr>time = 10, err = None\<rparr>]))
   \<and> FailedRequests 1 \<in> set (fst (printResults amd64
        [\<lparr>time = 30, err = None\<rparr>, \<lparr>time = 7, err = Some ''timeout''\<rparr>, \<lparr>time = 10, err = None\<rparr>]))
   \<and> (2 :: nat) + 1 = length [\<lparr>time = 30, err = None\<rparr>, \<lparr>time = 7, err = Some ''timeout''\<rparr>,
      \<lparr>time = 10, err = None\<rparr>]"
proof -
  let ?rs = "[\<lparr>time = 30, err = None\<rparr>, \<lparr>time = 7, err = Some ''timeout''\<rparr>, \<lparr>time = 10, err = None\<rparr>]"
  have ne: "successful_times ?rs \<noteq> []" by (simp add: successful_times_def)
  have p: "printResults amd64 ?rs = print_table amd64 [10, 30] 1 [FirstRequestTime 30]"
    by (simp add: printResults_def)
  obtain n m where nm: "SuccessfulRequests n \<in> set (fst (printResults amd64 ?rs))"
    "FailedRequests m \<in> set (fst (printResults amd64 ?rs))"
    using successes_plus_failures [of ?rs amd64] ne by blast
  have "n = 2" "m = 1"
    using nm print_table_counts [of "[FirstRequestTime 30]" _ amd64 "[10, 30]" 1] unfolding p
    by simp_all
  then show ?thesis using nm ne by simp
qed

section \<open>No successful request\<close>

text \<open>
  Claim C6.  When every outcome of the sequence carries an error, \<^verbatim>\<open>printResults\<close>
  prints the single line \<^verbatim>\<open>No successful requests\<close> and nothing else (no count line, no
  percentile table, no panic), and \<^verbatim>\<open>printASCIIHistogram\<close> prints nothing.
\<close>

theorem no_successes_report:
  assumes "\<forall>r \<in> set results. err r \<noteq> None"
  shows "printResults cv results = ([Println ''No successful requests''], None)
         \<and> printASCIIHistogram cv results = ([], None)"
  using assms
  by (simp add: printResults_def printASCIIHistogram_def results_loop_all_failed
      hist_times_all_failed)

theorem no_successes_report_witness:
  "err \<lparr>time = 5000000, err = Some ''timeout''\<rparr> \<noteq> None
   \<and> err \<lparr>time = 12, err = Some ''closed''\<rparr> \<noteq> None
   \<and> printResults amd64 [\<lparr>time = 5000000, err = Some ''timeout''\<rparr>, \<lparr>time = 12, err = Some ''closed''\<rparr>]
       = ([Println ''No successful requests''], None)
   \<and> printASCIIHistogram amd64
         [\<lparr>time = 5000000, err = Some ''timeout''\<rparr>, \<lparr>time = 12, err = Some ''closed''\<rparr>]
       = ([], None)"
  using no_successes_report
    [of "[\<lparr>time = 5000000, err = Some ''timeout''\<rparr>, \<lparr>time = 12, err = Some ''closed''\<rparr>]" amd64]
  by simp

section \<open>The runner\<close>

lemma run_loop_done: "\<not> i < n \<Longrightarrow> run_loop e n i st = (None, st)"
  by (simp add: run_loop.simps)

lemma call_handler_results: "st_results (call_handler i ev st) = st_results st"
  by (cases ev) (simp_all add: handler_def split: option.splits)

lemma call_handler_later: "i \<noteq> 0 \<Longrightarrow> call_handler i ev st = st"
  by (cases ev) (simp_all add: handler_def split: option.splits)

lemma run_loop_later_outs:
  "0 < i \<Longrightarrow> YourIP a \<in> set (st_outs (snd (run_loop e n i st))) \<longleftrightarrow> YourIP a \<in> set (st_outs st)"
proof (induction e n i st rule: run_loop.induct)
  case (1 e n i st)
  show ?case
  proof (cases "i < n")
    case False
    then show ?thesis by (simp add: run_loop_done)
  next
    case True
    let ?st1 = "st\<lparr>st_do_calls := st_do_calls st + 1\<rparr>"
    have h: "call_handler i (handler_event (probes e (st_do_calls st))) ?st1 = ?st1"
      using "1.prems" by (simp add: call_handler_later)
    show ?thesis
    proof (cases "0 \<le> i \<and> i < int (length (st_results st))")
      case False
      then show ?thesis
        using True h by (subst run_loop.simps) (auto simp add: Let_def)
    next
      case inr: True
      have "YourIP a \<in> set (st_outs (snd (run_loop e n (i + 1)
                (?st1\<lparr>st_results := (st_results ?st1)[nat i :=
                         \<lparr>time = elapsed (probes e (st_do_calls st)),
                          err = do_err (probes e (st_do_calls st))\<rparr>],
                       st_outs := st_outs ?st1 @ [BarAdd 1]\<rparr>))))
            \<longleftrightarrow> YourIP a \<in> set (st_outs st)"
        using "1.IH" [OF True refl refl refl] inr h "1.prems" by simp
      then show ?thesis
        using True h inr by (subst run_loop.simps) (simp add: Let_def)
    qed
  qed
qed


lemma call_handler_first_outs:
  "YourIP a \<in> set (st_outs (call_handler 0 ev st)) \<longleftrightarrow>
     YourIP a \<in> set (st_outs st)
     \<or> (\<exists>res. ev = Some res \<and> ev_error res = None \<and> xor_addr res = Some a)"
  by (cases ev) (auto simp add: handler_def split: option.splits)

lemma run_loop_first_outs:
  assumes "0 < n" and "int (length (st_results st)) = n"
  shows "YourIP a \<in> set (st_outs (snd (run_loop e n 0 st))) \<longleftrightarrow>
     YourIP a \<in> set (st_outs st)
     \<or> (\<exists>res. handler_event (probes e (st_do_calls st)) = Some res
              \<and> ev_error res = None \<and> xor_addr res = Some a)"
proof -
  let ?pr = "probes e (st_do_calls st)"
  let ?st2 = "call_handler 0 (handler_event ?pr) (st\<lparr>st_do_calls := st_do_calls st + 1\<rparr>)"
  let ?st3 = "?st2\<lparr>st_results := (st_results ?st2)[nat 0 := \<lparr>time = elapsed ?pr, err = do_err ?pr\<rparr>],
                  st_outs := st_outs ?st2 @ [BarAdd 1]\<rparr>"
  have "st_results st \<noteq> []" using assms by auto
  then have "run_loop e n 0 st = run_loop e n (0 + 1) ?st3"
    using assms by (subst run_loop.simps) (simp add: Let_def call_handler_results)
  then have "YourIP a \<in> set (st_outs (snd (run_loop e n 0 st))) \<longleftrightarrow> YourIP a \<in> set (st_outs ?st3)"
    using run_loop_later_outs [of "0 + 1" a e n ?st3] by simp
  also have "\<dots> \<longleftrightarrow> YourIP a \<in> set (st_outs ?st2)" by simp
  also have "\<dots> \<longleftrightarrow> YourIP a \<in> set (st_outs st)
     \<or> (\<exists>res. handler_event ?pr = Some res \<and> ev_error res = None \<and> xor_addr res = Some a)"
    by (simp add: call_handler_first_outs)
  finally show ?thesis .
qed

lemma finish_outs:
  "YourIP a \<in> set (st_outs (snd (case r of
       (Some p, st) \<Rightarrow> (Inl (Panic p), st\<lparr>st_closed := True\<rparr>)
     | (None, st) \<Rightarrow> (Inr (st_results st), st\<lparr>st_outs := st_outs st @ [Println ''''], st_closed := True\<rparr>))))
   \<longleftrightarrow> YourIP a \<in> set (st_outs (snd r))"
  by (cases r) (auto split: option.splits)

section \<open>Display of the observed address\<close>

text \<open>
  Claim C4, as the code has it.  \<^verbatim>\<open>runSTUNRequests\<close> prints the line \<^verbatim>\<open>Your IP is: a\<close>
  exactly when the set-up succeeds, the run count is positive and the slice of that
  many outcomes is allocated (its size is within \<^verbatim>\<open>maxAlloc\<close> and the memory is there),
  and the callback of the probe at index 0 receives an event without error from which
  the address \<open>a\<close> is read.  The callback of every later probe prints nothing, whatever
  it receives.
\<close>

theorem your_ip_only_at_index_0:
  "YourIP a \<in> set (st_outs (snd (runSTUNRequests e cfg))) \<longleftrightarrow>
     parse_uri e (''stun:'' @ stunHost cfg) = None
     \<and> dial_uri e (''stun:'' @ stunHost cfg) = None
     \<and> 0 < runCount cfg
     \<and> runCount cfg * result_size \<le> maxAlloc
     \<and> enough_memory e (runCount cfg)
     \<and> (\<exists>res. handler_event (probes e 0) = Some res
               \<and> ev_error res = None \<and> xor_addr res = Some a)"
proof (cases "parse_uri e (''stun:'' @ stunHost cfg) = None
     \<and> dial_uri e (''stun:'' @ stunHost cfg) = None")
  case False
  then show ?thesis
    by (auto simp add: runSTUNRequests_def init_state_def split: option.splits)
next
  case prep: True
  consider "runCount cfg < 0" | "runCount cfg = 0"
    | "0 < runCount cfg" "maxAlloc < runCount cfg * result_size"
    | "0 < runCount cfg" "runCount cfg * result_size \<le> maxAlloc"
      "\<not> enough_memory e (runCount cfg)"
    | "0 < runCount cfg" "runCount cfg * result_size \<le> maxAlloc"
      "enough_memory e (runCount cfg)"
    by linarith
  then show ?thesis
  proof cases
    case 1
    then show ?thesis using prep by (simp add: runSTUNRequests_def init_state_def)
  next
    case 2
    then show ?thesis using prep
      by (simp add: runSTUNRequests_def init_state_def run_loop_done maxAlloc_def)
  next
    case 3
    then show ?thesis using prep by (simp add: runSTUNRequests_def init_state_def)
  next
    case 4
    then show ?thesis using prep by (simp add: runSTUNRequests_def init_state_def)
  next
    case 5
    let ?st0 = "init_state\<lparr>st_results := replicate (nat (runCount cfg)) \<lparr>time = 0, err = None\<rparr>,
                          st_outs := [Println ''Starting STUN requests...'', BarNew (runCount cfg)]\<rparr>"
    have "YourIP a \<in> set (st_outs (snd (runSTUNRequests e cfg)))
          \<longleftrightarrow> YourIP a \<in> set (st_outs (snd (run_loop e (runCount cfg) 0 ?st0)))"
      using prep 5 by (simp add: runSTUNRequests_def finish_outs)
    also have "\<dots> \<longleftrightarrow> (\<exists>res. handler_event (probes e 0) = Some res
               \<and> ev_error res = None \<and> xor_addr res = Some a)"
      using 5 run_loop_first_outs [of "runCount cfg" ?st0 a e] by (simp add: init_state_def)
    finally show ?thesis using prep 5 by simp
  qed
qed

text \<open>
  Instances: with two probes that are both answered the address of the first answer is
  printed; it is not printed when the first request could not be written, nor when the
  first request timed out, although the second probe is answered in both runs; and it
  is not printed when the slice of outcomes cannot be made, for a run count of
  \<open>2 ^ 62\<close> (panic of \<^verbatim>\<open>make\<close>) and of \<open>2 ^ 40\<close> (more outcomes than the machine has
  memory for).
\<close>

theorem your_ip_only_at_index_0_witness:
  "YourIP ''203.0.113.7'' \<in> set (st_outs (snd (runSTUNRequests env_ok (cfg_runs 2))))
   \<and> YourIP ''203.0.113.7'' \<notin> set (st_outs (snd (runSTUNRequests env_first_lost (cfg_runs 2))))
   \<and> YourIP ''203.0.113.7'' \<notin> set (st_outs (snd (runSTUNRequests env_first_timeout (cfg_runs 2))))
   \<and> YourIP ''203.0.113.7'' \<notin> set (st_outs (snd (runSTUNRequests env_ok (cfg_runs (2 ^ 62)))))
   \<and> YourIP ''203.0.113.7'' \<notin> set (st_outs (snd (runSTUNRequests env_ok (cfg_runs (2 ^ 40)))))"
  using your_ip_only_at_index_0 [of "''203.0.113.7''" env_ok "cfg_runs 2"]
    your_ip_only_at_index_0 [of "''203.0.113.7''" env_first_lost "cfg_runs 2"]
    your_ip_only_at_index_0 [of "''203.0.113.7''" env_first_timeout "cfg_runs 2"]
    your_ip_only_at_index_0 [of "''203.0.113.7''" env_ok "cfg_runs (2 ^ 62)"]
    your_ip_only_at_index_0 [of "''203.0.113.7''" env_ok "cfg_runs (2 ^ 40)"]
  by (simp add: env_ok_def env_first_lost_def env_first_timeout_def cfg_runs_def answer_def
      write_failed_def timed_out_def result_size_def maxAlloc_def)

text \<open>
  The claim as stated fails on a run of two probes in which the first request cannot be
  written and the second is answered: the outcome at index 0 carries the error of
  \<^verbatim>\<open>c.Do\<close>, the first successful call is the one at index 1, and no address line is
  printed.
\<close>

theorem first_success_at_index_1_counterexample:
  "runSTUNRequests env_first_lost (cfg_runs 2) =
     (Inr [\<lparr>time = 120, err = Some ''write: connection refused''\<rparr>, \<lparr>time = 17, err = None\<rparr>],
      \<lparr>st_results = [\<lparr>time = 120, err = Some ''write: connection refused''\<rparr>,
                     \<lparr>time = 17, err = None\<rparr>],
       st_outs = [Println ''Starting STUN requests...'', BarNew 2, BarAdd 1, BarAdd 1, Println ''''],
       st_do_calls = 2, st_closed = True\<rparr>)"
  by (simp add: runSTUNRequests_def env_first_lost_def cfg_runs_def init_state_def
      run_loop.simps write_failed_def answer_def handler_def Let_def numeral_2_eq_2
      result_size_def maxAlloc_def)

text \<open>
  A first request that times out gives the same display.  The outcome at index 0 has
  no error then, because \<^verbatim>\<open>c.Do\<close> returned \<^verbatim>\<open>nil\<close>, and its time is the time until the
  timeout; the callback returned at \<^verbatim>\<open>res.Error != nil\<close> before reading an address.
\<close>

lemma first_probe_timed_out:
  "runSTUNRequests env_first_timeout (cfg_runs 2) =
     (Inr [\<lparr>time = 5000000, err = None\<rparr>, \<lparr>time = 17, err = None\<rparr>],
      \<lparr>st_results = [\<lparr>time = 5000000, err = None\<rparr>, \<lparr>time = 17, err = None\<rparr>],
       st_outs = [Println ''Starting STUN requests...'', BarNew 2, BarAdd 1, BarAdd 1, Println ''''],
       st_do_calls = 2, st_closed = True\<rparr>)"
  by (simp add: runSTUNRequests_def env_first_timeout_def cfg_runs_def init_state_def
      run_loop.simps timed_out_def answer_def handler_def Let_def numeral_2_eq_2
      result_size_def maxAlloc_def)

text \<open>
  A run count whose slice is beyond \<^verbatim>\<open>maxAlloc\<close> ends in the panic of \<^verbatim>\<open>make\<close> before the
  first line is printed and before the first probe, like a negative one; the deferred
  \<^verbatim>\<open>c.Close()\<close> has run.  A run count within \<^verbatim>\<open>maxAlloc\<close> for which there is no memory ends
  in the fatal error, again without a line and without a probe.
\<close>

lemma run_count_beyond_maxAlloc:
  "runSTUNRequests env_ok (cfg_runs (2 ^ 62)) =
     (Inl (Panic MakeSliceLenOutOfRange),
      \<lparr>st_results = [], st_outs = [], st_do_calls = 0, st_closed = True\<rparr>)
   \<and> main env_ok cv (cfg_runs (2 ^ 62)) = ([], Crash MakeSliceLenOutOfRange)"
  by (simp add: runSTUNRequests_def main_def env_ok_def cfg_runs_def init_state_def
      result_size_def maxAlloc_def)

lemma run_count_beyond_memory:
  "runSTUNRequests env_ok (cfg_runs (2 ^ 40)) =
     (Inl OutOfMemory, \<lparr>st_results = [], st_outs = [], st_do_calls = 0, st_closed = False\<rparr>)
   \<and> main env_ok cv (cfg_runs (2 ^ 40)) = ([], Fatal)"
  by (simp add: runSTUNRequests_def main_def env_ok_def cfg_runs_def init_state_def
      result_size_def maxAlloc_def)

lemma makeslice_panic:
  assumes "parse_uri e (''stun:'' @ stunHost cfg) = None"
    and "dial_uri e (''stun:'' @ stunHost cfg) = None"
    and "runCount cfg < 0 \<or> maxAlloc < runCount cfg * result_size"
  shows "runSTUNRequests e cfg =
     (Inl (Panic MakeSliceLenOutOfRange),
      \<lparr>st_results = [], st_outs = [], st_do_calls = 0, st_closed = True\<rparr>)"
  using assms by (auto simp add: runSTUNRequests_def init_state_def)

section \<open>Run counts zero and below\<close>

text \<open>
  Claim C7.  With a run count of 0 and a set-up that succeeds, \<^verbatim>\<open>runSTUNRequests\<close>
  returns the empty sequence without one call of \<^verbatim>\<open>c.Do\<close>; on the empty sequence
  \<^verbatim>\<open>printResults\<close> prints the line of the no-success case and \<^verbatim>\<open>printASCIIHistogram\<close>
  prints nothing, which is what they do on every sequence without a success; the
  program prints just that and exits with status 0.
\<close>

theorem zero_runs:
  assumes "parse_uri e (''stun:'' @ stunHost cfg) = None"
    and "dial_uri e (''stun:'' @ stunHost cfg) = None"
    and "runCount cfg = 0"
  shows "fst (runSTUNRequests e cfg) = Inr []
     \<and> st_do_calls (snd (runSTUNRequests e cfg)) = 0
     \<and> printResults cv [] = ([Println ''No successful requests''], None)
     \<and> printASCIIHistogram cv [] = ([], None)
     \<and> (\<forall>rs. (\<forall>r \<in> set rs. err r \<noteq> None) \<longrightarrow>
            printResults cv [] = printResults cv rs
            \<and> printASCIIHistogram cv [] = printASCIIHistogram cv rs)
     \<and> main e cv cfg =
         ([Println ''Starting STUN requests...'', BarNew 0, Println '''',
           Println ''No successful requests''], Exit 0)"
proof -
  have run: "runSTUNRequests e cfg =
      (Inr [], \<lparr>st_results = [], st_outs = [Println ''Starting STUN requests...'', BarNew 0,
                 Println ''''], st_do_calls = 0, st_closed = True\<rparr>)"
    using assms by (simp add: runSTUNRequests_def init_state_def run_loop_done maxAlloc_def)
  have empty: "printResults cv [] = ([Println ''No successful requests''], None)"
    "printASCIIHistogram cv [] = ([], None)"
    by (simp_all add: printResults_def printASCIIHistogram_def)
  have failed: "printResults cv rs = ([Println ''No successful requests''], None)
      \<and> printASCIIHistogram cv rs = ([], None)" if "\<forall>r \<in> set rs. err r \<noteq> None" for rs
    using that
    by (simp add: printResults_def printASCIIHistogram_def results_loop_all_failed
        hist_times_all_failed)
  show ?thesis using run empty failed by (simp add: main_def)
qed

theorem zero_runs_witness:
  "parse_uri env_ok (''stun:'' @ stunHost (cfg_runs 0)) = None
   \<and> dial_uri env_ok (''stun:'' @ stunHost (cfg_runs 0)) = None
   \<and> runCount (cfg_runs 0) = 0
   \<and> fst (runSTUNRequests env_ok (cfg_runs 0)) = Inr []
   \<and> st_do_calls (snd (runSTUNRequests env_ok (cfg_runs 0))) = 0
   \<and> main env_ok amd64 (cfg_runs 0) =
         ([Println ''Starting STUN requests...'', BarNew 0, Println '''',
           Println ''No successful requests''], Exit 0)"
proof -
  have h: "parse_uri env_ok (''stun:'' @ stunHost (cfg_runs 0)) = None"
    "dial_uri env_ok (''stun:'' @ stunHost (cfg_runs 0)) = None"
    "runCount (cfg_runs 0) = 0"
    by (simp_all add: env_ok_def cfg_runs_def)
  from zero_runs [OF h, of amd64] h show ?thesis by simp
qed

text \<open>
  Claim C9.  With a negative run count \<^verbatim>\<open>runSTUNRequests\<close> returns no sequence and
  \<^verbatim>\<open>c.Do\<close> is never called: once the set-up has succeeded, \<^verbatim>\<open>make([]result, cfg.runCount)\<close>
  panics, before the loop (a failed set-up returns its error before that).
\<close>

theorem negative_run_count:
  assumes "runCount cfg < 0"
  shows "(\<forall>rs. fst (runSTUNRequests e cfg) \<noteq> Inr rs)
     \<and> st_do_calls (snd (runSTUNRequests e cfg)) = 0
     \<and> (parse_uri e (''stun:'' @ stunHost cfg) = None
          \<and> dial_uri e (''stun:'' @ stunHost cfg) = None
        \<longrightarrow> fst (runSTUNRequests e cfg) = Inl (Panic MakeSliceLenOutOfRange)
            \<and> st_outs (snd (runSTUNRequests e cfg)) = [])"
  using assms by (simp add: runSTUNRequests_def init_state_def split: option.splits)

theorem negative_run_count_witness:
  "runCount (cfg_runs (- 3)) < 0
   \<and> parse_uri env_ok (''stun:'' @ stunHost (cfg_runs (- 3))) = None
   \<and> dial_uri env_ok (''stun:'' @ stunHost (cfg_runs (- 3))) = None
   \<and> fst (runSTUNRequests env_ok (cfg_runs (- 3))) = Inl (Panic MakeSliceLenOutOfRange)
   \<and> st_do_calls (snd (runSTUNRequests env_ok (cfg_runs (- 3)))) = 0
   \<and> st_outs (snd (runSTUNRequests env_ok (cfg_runs (- 3)))) = []"
proof -
  have neg: "runCount (cfg_runs (- 3)) < 0" by (simp add: cfg_runs_def)
  have prep: "parse_uri env_ok (''stun:'' @ stunHost (cfg_runs (- 3))) = None"
    "dial_uri env_ok (''stun:'' @ stunHost (cfg_runs (- 3))) = None"
    by (simp_all add: env_ok_def)
  from negative_run_count [OF neg, of env_ok] neg prep show ?thesis by simp
qed

section \<open>Binary64 rounding\<close>

subsection \<open>Powers of two and the binary exponent\<close>

lemma pow2_powi: "pow2 e = 2 powi e"
  by (simp add: pow2_def power_int_def power_one_over)

lemma pow2_pos: "0 < pow2 e"
  by (simp add: pow2_powi)

lemma pow2_add: "pow2 (a + b) = pow2 a * pow2 b"
  by (simp add: pow2_powi power_int_add)

lemma pow2_diff: "pow2 (a - b) = pow2 a / pow2 b"
  by (simp add: pow2_powi power_int_diff)

lemma pow2_mono: "a \<le> b \<Longrightarrow> pow2 a \<le> pow2 b"
  by (simp add: pow2_powi power_int_increasing)

lemma pow2_strict_mono: "a < b \<Longrightarrow> pow2 a < pow2 b"
  by (simp add: pow2_powi power_int_strict_increasing)

lemma pow2_less_cancel: "pow2 a < pow2 b \<Longrightarrow> a < b"
  using pow2_mono [of b a] by (cases "a < b") auto

lemma pow2_nat: "0 \<le> e \<Longrightarrow> pow2 e = of_int (2 ^ nat e)"
  by (simp add: pow2_def)

lemma pow2_plus1: "pow2 (e + 1) = 2 * pow2 e"
  by (simp add: pow2_add pow2_def [of 1])

lemma ilog2_bounds: "0 < x \<Longrightarrow> pow2 (ilog2 x) \<le> x \<and> x < pow2 (ilog2 x + 1)"
proof (induction x rule: ilog2.induct)
  case (1 x)
  show ?case
  proof (cases "2 \<le> x")
    case True
    define k where "k = ilog2 (x / 2)"
    have eq: "ilog2 x = k + 1" using True "1.prems" unfolding k_def by (subst ilog2.simps) simp
    have "pow2 k \<le> x / 2 \<and> x / 2 < pow2 (k + 1)"
      using "1.IH"(1) True "1.prems" unfolding k_def by simp
    then show ?thesis
      unfolding eq using pow2_plus1 [of k] pow2_plus1 [of "k + 1"] by linarith
  next
    case False
    show ?thesis
    proof (cases "x < 1")
      case True
      define k where "k = ilog2 (x * 2)"
      have eq: "ilog2 x = k - 1" using True "1.prems" False unfolding k_def
        by (subst ilog2.simps) simp
      have "pow2 k \<le> x * 2 \<and> x * 2 < pow2 (k + 1)"
        using "1.IH"(2) True False "1.prems" unfolding k_def by simp
      then show ?thesis
        unfolding eq using pow2_plus1 [of "k - 1"] pow2_plus1 [of k] by simp
    next
      case ge1: False
      then have "ilog2 x = 0" using False "1.prems" by (subst ilog2.simps) simp
      then show ?thesis using ge1 False by (simp add: pow2_def)
    qed
  qed
qed

lemma ilog2_unique:
  assumes "pow2 e \<le> x" and "x < pow2 (e + 1)"
  shows "ilog2 x = e"
proof -
  have x: "0 < x" using assms(1) pow2_pos [of e] by linarith
  from ilog2_bounds [OF x] have b: "pow2 (ilog2 x) \<le> x" "x < pow2 (ilog2 x + 1)" by auto
  have "pow2 (ilog2 x) < pow2 (e + 1)" using b(1) assms(2) by linarith
  then have "ilog2 x < e + 1" by (rule pow2_less_cancel)
  moreover have "pow2 e < pow2 (ilog2 x + 1)" using b(2) assms(1) by linarith
  then have "e < ilog2 x + 1" by (rule pow2_less_cancel)
  ultimately show ?thesis by linarith
qed

lemma ilog2_mono:
  assumes "0 < x" and "x \<le> y"
  shows "ilog2 x \<le> ilog2 y"
proof -
  have "pow2 (ilog2 x) \<le> x" using ilog2_bounds [OF assms(1)] by simp
  moreover have "y < pow2 (ilog2 y + 1)" using ilog2_bounds [of y] assms by simp
  ultimately have "pow2 (ilog2 x) < pow2 (ilog2 y + 1)" using assms(2) by linarith
  then have "ilog2 x < ilog2 y + 1" by (rule pow2_less_cancel)
  then show ?thesis by simp
qed

lemma ilog2_less:
  assumes "0 < x" and "x < pow2 e"
  shows "ilog2 x < e"
proof -
  have "pow2 (ilog2 x) \<le> x" using ilog2_bounds [OF assms(1)] by simp
  then have "pow2 (ilog2 x) < pow2 e" using assms(2) by linarith
  then show ?thesis by (rule pow2_less_cancel)
qed

subsection \<open>Rounding to an integer and to a binary64 value\<close>

lemma rne_of_int: "rne (of_int n) = n"
  by (simp add: rne_def)

lemma rne_floor_or_next: "rne y = \<lfloor>y\<rfloor> \<or> rne y = \<lfloor>y\<rfloor> + 1"
  by (simp add: rne_def Let_def)

lemma rne_error: "\<bar>of_int (rne y) - y\<bar> \<le> 1 / 2"
proof -
  define f where "f = \<lfloor>y\<rfloor>"
  have fl: "of_int f \<le> y" "y < of_int f + 1" unfolding f_def by linarith+
  show ?thesis
    unfolding rne_def Let_def f_def [symmetric] using fl by (auto simp add: abs_if)
qed

lemma rne_mono:
  assumes "x \<le> y"
  shows "rne x \<le> rne y"
proof (cases "\<lfloor>x\<rfloor> = \<lfloor>y\<rfloor>")
  case True
  define f where "f = \<lfloor>y\<rfloor>"
  have "x - of_int f \<le> y - of_int f" using assms by simp
  then show ?thesis
    unfolding rne_def Let_def True f_def [symmetric] by auto
next
  case False
  have "\<lfloor>x\<rfloor> \<le> \<lfloor>y\<rfloor>" using assms by (rule floor_mono)
  then have "\<lfloor>x\<rfloor> + 1 \<le> \<lfloor>y\<rfloor>" using False by linarith
  moreover have "rne x \<le> \<lfloor>x\<rfloor> + 1" using rne_floor_or_next [of x] by linarith
  moreover have "\<lfloor>y\<rfloor> \<le> rne y" using rne_floor_or_next [of y] by linarith
  ultimately show ?thesis by linarith
qed

lemma rne_ge: "of_int a \<le> y \<Longrightarrow> a \<le> rne y"
  using rne_mono [of "of_int a" y] by (simp add: rne_of_int)

lemma rne_le: "y \<le> of_int b \<Longrightarrow> rne y \<le> b"
  using rne_mono [of y "of_int b"] by (simp add: rne_of_int)

lemma ulp_pos: "0 < ulp x"
  by (simp add: ulp_def pow2_pos)

lemma ulp_eq: "ulp x = pow2 (max (ilog2 x) (- 1022)) / 2 ^ 52"
proof -
  have "pow2 52 = 2 ^ 52" by (simp add: pow2_def)
  then show ?thesis by (simp add: ulp_def pow2_diff)
qed

lemma rnd_pos_error: "\<bar>rnd_pos x - x\<bar> \<le> ulp x / 2"
proof -
  have u: "0 < ulp x" by (rule ulp_pos)
  have "rnd_pos x - x = (of_int (rne (x / ulp x)) - x / ulp x) * ulp x"
    using u by (simp add: rnd_pos_def field_simps)
  then have "\<bar>rnd_pos x - x\<bar> = \<bar>of_int (rne (x / ulp x)) - x / ulp x\<bar> * ulp x"
    using u by (simp add: abs_mult)
  also have "\<dots> \<le> (1 / 2) * ulp x"
    using rne_error [of "x / ulp x"] u by (intro mult_right_mono) simp_all
  finally show ?thesis by simp
qed

lemma rnd_pos_nonneg: "0 \<le> x \<Longrightarrow> 0 \<le> rnd_pos x"
proof -
  assume "0 \<le> x"
  then have "0 \<le> x / ulp x" using ulp_pos [of x] by simp
  then have "0 \<le> rne (x / ulp x)" using rne_ge [of 0 "x / ulp x"] by simp
  then show ?thesis using ulp_pos [of x] by (simp add: rnd_pos_def)
qed

text \<open>A positive value and its rounding lie in the same binade (closed above).\<close>

lemma rnd_pos_binade:
  assumes "0 < x"
  defines "e \<equiv> max (ilog2 x) (- 1022)"
  shows "rnd_pos x \<le> pow2 (e + 1)" and "- 1022 \<le> ilog2 x \<Longrightarrow> pow2 e \<le> rnd_pos x"
proof -
  have u: "ulp x = pow2 (e - 52)" by (simp add: ulp_def e_def)
  have up: "0 < ulp x" by (rule ulp_pos)
  have "x < pow2 (ilog2 x + 1)" using ilog2_bounds [OF assms(1)] by simp
  also have "\<dots> \<le> pow2 (e + 1)" by (rule pow2_mono) (simp add: e_def)
  finally have "x < pow2 (e + 1)" .
  then have "x / ulp x < pow2 (e + 1) / ulp x" using up by (simp add: divide_strict_right_mono)
  also have "pow2 (e + 1) / ulp x = pow2 53" unfolding u by (simp add: pow2_diff [symmetric])
  also have "pow2 53 = of_int (2 ^ 53)" by (simp add: pow2_def)
  finally have "rne (x / ulp x) \<le> 2 ^ 53" by (intro rne_le) simp
  then have "of_int (rne (x / ulp x)) * ulp x \<le> of_int (2 ^ 53) * ulp x"
    using up by (intro mult_right_mono) simp_all
  also have "of_int (2 ^ 53) * ulp x = pow2 53 * pow2 (e - 52)" by (simp add: u pow2_def)
  also have "\<dots> = pow2 (e + 1)" by (simp add: pow2_add [symmetric] add.commute)
  finally show "rnd_pos x \<le> pow2 (e + 1)" by (simp add: rnd_pos_def)
  assume "- 1022 \<le> ilog2 x"
  then have e: "e = ilog2 x" by (simp add: e_def)
  have "pow2 e \<le> x" using ilog2_bounds [OF assms(1)] e by simp
  then have "pow2 e / ulp x \<le> x / ulp x" using up by (simp add: divide_right_mono)
  moreover have "pow2 e / ulp x = pow2 52" unfolding u by (simp add: pow2_diff [symmetric])
  moreover have "pow2 52 = of_int (2 ^ 52)" by (simp add: pow2_def)
  ultimately have "2 ^ 52 \<le> rne (x / ulp x)" by (intro rne_ge) simp
  then have "of_int (2 ^ 52) * ulp x \<le> of_int (rne (x / ulp x)) * ulp x"
    using up by (intro mult_right_mono) simp_all
  moreover have "of_int (2 ^ 52) * ulp x = pow2 52 * pow2 (e - 52)" by (simp add: u pow2_def)
  moreover have "pow2 52 * pow2 (e - 52) = pow2 e" by (simp add: pow2_add [symmetric])
  ultimately show "pow2 e \<le> rnd_pos x" by (simp add: rnd_pos_def)
qed

lemma rnd_pos_mono:
  assumes "0 < x" and "x \<le> y"
  shows "rnd_pos x \<le> rnd_pos y"
proof -
  have y: "0 < y" using assms by linarith
  define ex where "ex = max (ilog2 x) (- 1022)"
  define ey where "ey = max (ilog2 y) (- 1022)"
  have le: "ex \<le> ey" using ilog2_mono [OF assms] by (simp add: ex_def ey_def)
  show ?thesis
  proof (cases "ex = ey")
    case True
    then have u: "ulp x = ulp y" by (simp add: ulp_def ex_def ey_def)
    have "x / ulp y \<le> y / ulp y" using assms(2) ulp_pos [of y] by (simp add: divide_right_mono)
    then have "rne (x / ulp y) \<le> rne (y / ulp y)" by (rule rne_mono)
    then show ?thesis using ulp_pos [of y] by (simp add: rnd_pos_def u)
  next
    case False
    then have lt: "ex + 1 \<le> ey" using le by linarith
    then have "- 1022 < ey" by (simp add: ex_def)
    then have ny: "- 1022 \<le> ilog2 y" by (simp add: ey_def)
    have "rnd_pos x \<le> pow2 (ex + 1)" using rnd_pos_binade(1) [OF assms(1)] by (simp add: ex_def)
    also have "\<dots> \<le> pow2 ey" using lt by (rule pow2_mono)
    also have "\<dots> \<le> rnd_pos y" using rnd_pos_binade(2) [OF y ny] by (simp add: ey_def)
    finally show ?thesis .
  qed
qed

subsection \<open>Representable values, monotonicity and the relative error\<close>

lemma ilog2_pow2: "ilog2 (pow2 e) = e"
  by (rule ilog2_unique) (simp_all add: pow2_strict_mono)

lemma rnd_pos_dyadic:
  assumes "0 < m" and "m < 2 ^ 53" and "- 1074 \<le> k"
  shows "rnd_pos (of_int m * pow2 k) = of_int m * pow2 k"
proof -
  define x where "x = of_int m * pow2 k"
  define e where "e = max (ilog2 x) (- 1022)"
  have x: "0 < x" using assms(1) pow2_pos [of k] by (simp add: x_def)
  have "(of_int m :: rat) < of_int (2 ^ 53)" using assms(2) by (simp only: of_int_less_iff)
  also have "of_int (2 ^ 53) = pow2 53" by (simp add: pow2_def)
  finally have "x < pow2 53 * pow2 k" using pow2_pos [of k] by (simp add: x_def)
  then have "x < pow2 (53 + k)" by (simp add: pow2_add)
  then have "ilog2 x < 53 + k" using x by (intro ilog2_less)
  then have d: "0 \<le> k - (e - 52)" using assms(3) by (simp add: e_def)
  have u: "ulp x = pow2 (e - 52)" by (simp add: ulp_def e_def)
  have split: "pow2 k = pow2 (k - (e - 52)) * pow2 (e - 52)"
    by (simp add: pow2_add [symmetric])
  have xs: "x = of_int m * pow2 (k - (e - 52)) * pow2 (e - 52)"
    unfolding x_def by (subst split) simp
  have "x / ulp x = of_int m * pow2 (k - (e - 52))"
    unfolding u using pow2_pos [of "e - 52"] by (subst xs) simp
  also have "\<dots> = of_int (m * 2 ^ nat (k - (e - 52)))" using d by (simp add: pow2_nat)
  finally have "rne (x / ulp x) = m * 2 ^ nat (k - (e - 52))" by (simp only: rne_of_int)
  then have "rnd_pos x = of_int (m * 2 ^ nat (k - (e - 52))) * pow2 (e - 52)"
    by (simp add: rnd_pos_def u)
  also have "\<dots> = of_int m * (pow2 (k - (e - 52)) * pow2 (e - 52))"
    using d by (simp add: pow2_nat)
  also have "\<dots> = x" using xs by simp
  finally show ?thesis by (simp add: x_def)
qed

lemma rnd_dyadic:
  assumes "\<bar>m\<bar> < 2 ^ 53" and "- 1074 \<le> k"
  shows "rnd (of_int m * pow2 k) = of_int m * pow2 k"
proof -
  consider "m = 0" | "0 < m" | "m < 0" by linarith
  then show ?thesis
  proof cases
    case 1
    then show ?thesis by (simp add: rnd_def)
  next
    case 2
    then have "0 < of_int m * pow2 k" using pow2_pos [of k] by simp
    moreover have "m < 2 ^ 53" using assms(1) by linarith
    ultimately show ?thesis using rnd_pos_dyadic [OF 2 _ assms(2)] by (simp add: rnd_def)
  next
    case 3
    then have neg: "of_int m * pow2 k < 0" using pow2_pos [of k] by (simp add: mult_neg_pos)
    have "0 < - m" "- m < 2 ^ 53" using 3 assms(1) by linarith+
    then have "rnd_pos (of_int (- m) * pow2 k) = of_int (- m) * pow2 k"
      using assms(2) by (intro rnd_pos_dyadic)
    then show ?thesis using neg by (simp add: rnd_def)
  qed
qed

lemma rnd_of_int: "\<bar>i\<bar> < 2 ^ 53 \<Longrightarrow> rnd (of_int i) = of_int i"
  using rnd_dyadic [of i 0] by (simp add: pow2_def)

lemma rnd_0: "rnd 0 = 0"
  by (simp add: rnd_def)

lemma rnd_nonneg: "0 \<le> x \<Longrightarrow> 0 \<le> rnd x"
  using rnd_pos_nonneg [of x] by (simp add: rnd_def)

lemma rnd_nonpos: "x \<le> 0 \<Longrightarrow> rnd x \<le> 0"
  using rnd_pos_nonneg [of "- x"] by (simp add: rnd_def)

lemma rnd_mono:
  assumes "x \<le> y"
  shows "rnd x \<le> rnd y"
proof -
  consider "0 < x" | "x \<le> 0" "0 \<le> y" | "y < 0" using assms by linarith
  then show ?thesis
  proof cases
    case 1
    then show ?thesis using rnd_pos_mono [OF 1 assms] assms by (simp add: rnd_def)
  next
    case 2
    then show ?thesis using rnd_nonpos [of x] rnd_nonneg [of y] by linarith
  next
    case 3
    then have "rnd_pos (- y) \<le> rnd_pos (- x)" using assms by (intro rnd_pos_mono) simp_all
    then show ?thesis using 3 assms by (simp add: rnd_def)
  qed
qed

lemma rnd_rel_error:
  assumes "pow2 (- 1022) \<le> x"
  shows "\<bar>rnd x - x\<bar> \<le> x / 2 ^ 53"
proof -
  have x: "0 < x" using assms pow2_pos [of "- 1022"] by linarith
  have "ilog2 (pow2 (- 1022)) \<le> ilog2 x" using assms by (intro ilog2_mono pow2_pos)
  then have "- 1022 \<le> ilog2 x" by (simp add: ilog2_pow2)
  then have "ulp x = pow2 (ilog2 x) / 2 ^ 52" by (simp add: ulp_eq max_def)
  also have "\<dots> \<le> x / 2 ^ 52" using ilog2_bounds [OF x] by (simp add: divide_right_mono)
  finally have "ulp x / 2 \<le> x / 2 ^ 53" by simp
  then show ?thesis using rnd_pos_error [of x] x by (simp add: rnd_def)
qed

lemma rnd_abs_bound:
  assumes "\<bar>x\<bar> \<le> 2 ^ 100"
  shows "\<bar>rnd x\<bar> \<le> 2 ^ 100"
proof -
  have r: "rnd (2 ^ 100) = 2 ^ 100" "rnd (- (2 ^ 100)) = - (2 ^ 100)"
    using rnd_dyadic [of 1 100] rnd_dyadic [of "- 1" 100] by (simp_all add: pow2_def)
  have "rnd x \<le> rnd (2 ^ 100)" "rnd (- (2 ^ 100)) \<le> rnd x"
    using assms by (intro rnd_mono; linarith)+
  then show ?thesis unfolding r by linarith
qed

lemma to_f64_Fin:
  assumes "\<bar>x\<bar> \<le> 2 ^ 100"
  shows "to_f64 x = Fin (rnd x)"
proof (cases "rnd x = 0")
  case True
  then show ?thesis by (simp add: to_f64_def ilog2.simps)
next
  case False
  have "\<bar>rnd x\<bar> < pow2 1024" using rnd_abs_bound [OF assms] by (simp add: pow2_def)
  then have "ilog2 \<bar>rnd x\<bar> < 1024" using False by (intro ilog2_less) simp_all
  then show ?thesis by (simp add: to_f64_def)
qed

lemma f64_of_int_exact: "\<bar>i\<bar> < 2 ^ 53 \<Longrightarrow> f64_of_int i = Fin (of_int i)"
proof -
  assume a: "\<bar>i\<bar> < 2 ^ 53"
  then have "\<bar>of_int i :: rat\<bar> < 2 ^ 53"
    by (metis of_int_abs of_int_less_numeral_power_cancel_iff)
  moreover have "(2::rat) ^ 53 \<le> 2 ^ 100" by simp
  ultimately have "\<bar>of_int i :: rat\<bar> \<le> 2 ^ 100" by linarith
  then show ?thesis using a by (simp add: f64_of_int_def to_f64_Fin rnd_of_int)
qed

lemma floor_numeral_div: "\<lfloor>numeral a / numeral b :: rat\<rfloor> = numeral a div numeral b"
  using floor_divide_of_int_eq [of "numeral a" "numeral b", where ?'a = rat] by simp

lemma floor_one_div: "\<lfloor>1 / numeral b :: rat\<rfloor> = 1 div numeral b"
  using floor_divide_of_int_eq [of 1 "numeral b", where ?'a = rat] by simp

lemma rnd_numeral: "numeral n < (2 ^ 53 :: int) \<Longrightarrow> rnd (numeral n) = numeral n"
  using rnd_of_int [of "numeral n"] by simp

lemma upt_20: "[0..<20] = [0, 1, 2, 3, 4, 5, 6, 7, 8, 9, 10, 11, 12, 13, 14, 15, 16, 17, 18, 19]"
  by (simp add: upt_rec)

section \<open>The percentile index\<close>


lemma tiny_le: "pow2 (- 1022) \<le> 1 / 100"
proof -
  have "pow2 (- 1022) \<le> pow2 (- 7)" by (rule pow2_mono) simp
  also have "pow2 (- 7) \<le> 1 / 100" by (simp add: pow2_def)
  finally show ?thesis .
qed

lemma round_after_rnd:
  assumes "0 \<le> k" and "k < 2 ^ 52"
  shows "\<lfloor>rnd (of_int k / 100) + 1 / 2\<rfloor> = \<lfloor>of_int k / 100 + 1 / 2 :: rat\<rfloor>"
proof -
  define x :: rat where "x = of_int k / 100"
  define m where "m = \<lfloor>x + 1 / 2\<rfloor>"
  have x0: "0 \<le> x" using assms(1) by (simp add: x_def)
  have fl: "of_int m \<le> x + 1 / 2" "x + 1 / 2 < of_int m + 1" unfolding m_def by linarith+
  have kb: "(of_int k :: rat) < 2 ^ 52" using assms(2) by simp
  then have xb: "x < 2 ^ 52 / 100" by (simp add: x_def)
  have m0: "0 \<le> m" using x0 unfolding m_def by simp
  have "(of_int m :: rat) < 2 ^ 52 / 100 + 1 / 2" using fl(1) xb by linarith
  also have "\<dots> < 2 ^ 52" by simp
  finally have "m < 2 ^ 52" by simp
  then have "\<bar>2 * m - 1\<bar> < 2 ^ 53" using m0 by simp
  then have "rnd (of_int (2 * m - 1) * pow2 (- 1)) = of_int (2 * m - 1) * pow2 (- 1)"
    by (intro rnd_dyadic) simp_all
  moreover have half: "of_int (2 * m - 1) * pow2 (- 1) = of_int m - 1 / 2"
    by (simp add: pow2_def field_simps)
  ultimately have "rnd (of_int m - 1 / 2) = of_int m - 1 / 2" by simp
  moreover have "rnd (of_int m - 1 / 2) \<le> rnd x" using fl(1) by (intro rnd_mono) linarith
  ultimately have lower: "of_int m \<le> rnd x + 1 / 2" by linarith
  have upper: "rnd x + 1 / 2 < of_int m + 1"
  proof (cases "k = 0")
    case True
    then show ?thesis using m0 by (simp add: x_def rnd_0)
  next
    case False
    then have "1 \<le> k" using assms(1) by linarith
    then have "(1 :: rat) \<le> of_int k" by linarith
    then have "1 / 100 \<le> x" by (simp add: x_def)
    then have "pow2 (- 1022) \<le> x" using tiny_le by linarith
    then have "\<bar>rnd x - x\<bar> \<le> x / 2 ^ 53" by (rule rnd_rel_error)
    moreover have "x / 2 ^ 53 < 1 / 200" using xb by simp
    ultimately have close: "rnd x < x + 1 / 200" by linarith
    have "of_int k < (100 * of_int m + 50 :: rat)" using fl(2) by (simp add: x_def)
    then have "(of_int k :: rat) < of_int (100 * m + 50)" by simp
    then have "k < 100 * m + 50" by (simp only: of_int_less_iff)
    then have "k \<le> 100 * m + 49" by linarith
    then have "(of_int k :: rat) \<le> of_int (100 * m + 49)" by (simp only: of_int_le_iff)
    then have "x \<le> of_int m + 49 / 100" by (simp add: x_def)
    then show ?thesis using close by linarith
  qed
  have "\<lfloor>rnd x + 1 / 2\<rfloor> = m" using lower upper by (intro floor_unique) simp_all
  then show ?thesis by (simp add: m_def x_def)
qed

lemma trunc_of_int: "trunc (of_int j) = j"
  by (simp add: trunc_def)

lemma percentile_index_exact:
  assumes "0 < n" and "n \<le> 2 ^ 45" and "0 \<le> p" and "p \<le> 100"
  shows "percentile_index cv n p = round_half_away (of_int ((int n - 1) * p) / 100)"
proof -
  define a where "a = int n - 1"
  define k where "k = a * p"
  have a: "0 \<le> a" "a < 2 ^ 45" using assms(1,2) by (simp_all add: a_def)
  have k0: "0 \<le> k" using a assms(3) by (simp add: k_def)
  have "k \<le> a * 100" unfolding k_def using a(1) assms(4) by (intro mult_left_mono)
  also have "\<dots> < 2 ^ 45 * 100" using a(2) by simp
  also have "\<dots> < (2 ^ 52 :: int)" by simp
  finally have kb: "k < 2 ^ 52" .
  have kr: "(of_int k :: rat) < 2 ^ 52" using kb by simp
  have fa: "f64_of_int a = Fin (of_int a)" using a by (intro f64_of_int_exact) simp
  have fp: "f64_of_int p = Fin (of_int p)" using assms(3,4) by (intro f64_of_int_exact) simp
  have "\<bar>of_int k :: rat\<bar> \<le> 2 ^ 100" using k0 kr by simp
  then have "to_f64 (of_int k) = Fin (rnd (of_int k))" by (rule to_f64_Fin)
  also have "rnd (of_int k) = of_int k" using k0 kb by (intro rnd_of_int) simp
  finally have mul: "fmul (f64_of_int a) (f64_of_int p) = Fin (of_int k)"
    by (simp add: fa fp k_def)
  have "\<bar>of_int k / 100 :: rat\<bar> \<le> 2 ^ 100" using k0 kr by simp
  then have "to_f64 (of_int k / 100) = Fin (rnd (of_int k / 100))" by (rule to_f64_Fin)
  then have s1: "fdiv (fmul (f64_of_int a) (f64_of_int p)) (Fin 100) = Fin (rnd (of_int k / 100))"
    unfolding mul by simp
  have r0: "0 \<le> rnd (of_int k / 100)" using k0 by (intro rnd_nonneg) simp
  define j where "j = \<lfloor>of_int k / 100 + 1 / 2 :: rat\<rfloor>"
  have rj: "\<lfloor>rnd (of_int k / 100) + 1 / 2\<rfloor> = j"
    unfolding j_def using k0 kb by (rule round_after_rnd)
  have j0: "0 \<le> j" using k0 by (simp add: j_def)
  have "(of_int k / 100 + 1 / 2 :: rat) < 2 ^ 52" using kr by simp
  then have "j < 2 ^ 52" unfolding j_def by (simp add: floor_less_iff)
  then have jr: "- (2 ^ 63) \<le> j" "j < 2 ^ 63" using j0 by simp_all
  have s2: "go_round (Fin (rnd (of_int k / 100))) = Fin (of_int j)" using r0 rj by simp
  have s3: "int_of_f64 cv (Fin (of_int j)) = j" using jr by (simp add: trunc_of_int)
  have "0 \<le> (of_int k / 100 :: rat)" using k0 by simp
  then have s4: "round_half_away (of_int k / 100) = j" by (simp only: round_half_away_def j_def if_True)
  have "percentile_index cv n p = round_half_away (of_int k / 100)"
    unfolding percentile_index_def a_def [symmetric] s1 s2 s3 s4 ..
  then show ?thesis unfolding k_def a_def .
qed

lemma percentile_index_in_range:
  assumes "0 < n" and "0 \<le> p" and "p \<le> 100"
  shows "0 \<le> round_half_away (of_int ((int n - 1) * p) / 100)"
    and "round_half_away (of_int ((int n - 1) * p) / 100) < int n"
proof -
  define a where "a = int n - 1"
  define k where "k = a * p"
  have a: "0 \<le> a" using assms(1) by (simp add: a_def)
  have k0: "0 \<le> k" using a assms(2) by (simp add: k_def)
  then have kr: "0 \<le> (of_int k / 100 :: rat)" by simp
  have "k \<le> a * 100" unfolding k_def using a assms(3) by (intro mult_left_mono)
  then have "(of_int k :: rat) \<le> of_int (a * 100)" by (simp only: of_int_le_iff)
  then have "(of_int k / 100 + 1 / 2 :: rat) < of_int (a + 1)" by simp
  then have up: "\<lfloor>of_int k / 100 + 1 / 2 :: rat\<rfloor> < a + 1" by (simp only: floor_less_iff)
  have lo: "0 \<le> \<lfloor>of_int k / 100 + 1 / 2 :: rat\<rfloor>" using kr by simp
  have eq: "round_half_away (of_int k / 100) = \<lfloor>of_int k / 100 + 1 / 2 :: rat\<rfloor>"
    using kr by (simp only: round_half_away_def if_True)
  have "0 \<le> round_half_away (of_int k / 100)" "round_half_away (of_int k / 100) < int n"
    unfolding eq using lo up by (simp_all add: a_def)
  then show "0 \<le> round_half_away (of_int ((int n - 1) * p) / 100)"
    and "round_half_away (of_int ((int n - 1) * p) / 100) < int n"
    unfolding k_def a_def by blast+
qed


lemma percentile_value:
  assumes "xs \<noteq> []" and "length xs \<le> 2 ^ 45" and "0 \<le> p" and "p \<le> 100"
  shows "percentile cv xs p
    = Inr (xs ! nat (round_half_away (of_int ((int (length xs) - 1) * p) / 100)))"
proof -
  have n: "0 < length xs" using assms(1) by simp
  show ?thesis
    using percentile_index_exact [OF n assms(2,3,4), of cv]
      percentile_index_in_range [OF n assms(3,4)]
    by (simp add: percentile_def)
qed

text \<open>With at most \<open>2 ^ 45\<close> outcomes \<^verbatim>\<open>printResults\<close> ends without a panic.\<close>

lemma percentile_rows_complete:
  assumes "xs \<noteq> []" and "length xs \<le> 2 ^ 45" and "\<forall>(l, p) \<in> set ps. 0 \<le> p \<and> p \<le> 100"
  shows "snd (percentile_rows cv xs ps outs) = None"
  using assms(3)
proof (induction ps arbitrary: outs)
  case Nil
  then show ?case by simp
next
  case (Cons lp ps)
  obtain l p where lp: "lp = (l, p)" by (cases lp) auto
  have "0 \<le> p" "p \<le> 100" using Cons.prems lp by auto
  from percentile_value [OF assms(1,2) this, of cv] Cons show ?case by (simp add: lp)
qed

lemma printResults_completes:
  assumes "length results \<le> 2 ^ 45"
  shows "snd (printResults cv results) = None"
proof -
  obtain ts e outs where run: "results_loop 0 results ([], 0, []) = (ts, e, outs)"
    by (cases "results_loop 0 results ([], 0, [])") auto
  from results_loop_lengths [OF run] have le: "length ts \<le> length results" by simp
  show ?thesis
  proof (cases "ts = []")
    case True
    then show ?thesis by (simp add: printResults_def run)
  next
    case False
    have "set (sort ts) \<noteq> {}" using False by simp
    then have s1: "sort ts \<noteq> []" by (simp only: set_empty not_False_eq_True)
    have s2: "length (sort ts) \<le> 2 ^ 45" using le assms by simp
    note s = s1 s2
    define o1 where "o1 = outs @ [Println (CHR 0x0A # ''Results:''),
                          SuccessfulRequests (length (sort ts)),
                          FailedRequests e,
                          TableTop, TableHead, TableSep,
                          TableRow ''p0'' (sort ts ! 0)]"
    obtain o2 p2
      where pr: "percentile_rows cv (sort ts) [(''p25'', 25), (''p50'', 50), (''p75'', 75)] o1
        = (o2, p2)"
      by (cases "percentile_rows cv (sort ts) [(''p25'', 25), (''p50'', 50), (''p75'', 75)] o1")
        auto
    have "snd (percentile_rows cv (sort ts) [(''p25'', 25), (''p50'', 50), (''p75'', 75)] o1) = None"
      by (rule percentile_rows_complete [OF s]) simp
    then have p2: "p2 = None" unfolding pr by simp
    have "snd (print_table cv (sort ts) e outs) = None"
      unfolding print_table_def Let_def o1_def [symmetric] pr p2 by simp
    then show ?thesis using False by (simp add: printResults_def run)
  qed
qed

text \<open>
  Claim C2.  For a non-empty slice of \<open>n\<close> times and \<open>p\<close> one of 25, 50 and 75,
  \<^verbatim>\<open>percentile\<close> returns the element at index \<open>round ((n - 1) * p / 100)\<close> with halves
  rounded away from zero: the two \<^verbatim>\<open>float64\<close> roundings on the way (of the product and of
  the quotient) do not move the index, and the access is in range.  The slice has at
  most \<open>2 ^ 45\<close> elements, which holds for every slice of \<^verbatim>\<open>int64\<close> that fits the 48-bit
  address space of the Go runtime.  The slice need not be sorted for this.
\<close>

theorem percentile_rule:
  assumes "xs \<noteq> []" and "length xs \<le> 2 ^ 45" and "p \<in> {25, 50, 75}"
  shows "percentile cv xs p
    = Inr (xs ! nat (round_half_away (of_int ((int (length xs) - 1) * p) / 100)))"
proof -
  have n: "0 < length xs" using assms(1) by simp
  have p: "0 \<le> p" "p \<le> 100" using assms(3) by auto
  show ?thesis
    using percentile_index_exact [OF n assms(2) p, of cv] percentile_index_in_range [OF n p]
    by (simp add: percentile_def)
qed

theorem percentile_rule_witness:
  "[10, 20, 30, 40, 50] \<noteq> ([] :: int list) \<and> length [10, 20, 30, 40, 50 :: int] \<le> 2 ^ 45
   \<and> (25 :: int) \<in> {25, 50, 75} \<and> (50 :: int) \<in> {25, 50, 75} \<and> (75 :: int) \<in> {25, 50, 75}
   \<and> percentile amd64 [10, 20, 30, 40, 50] 25 = Inr 20
   \<and> percentile amd64 [10, 20, 30, 40, 50] 50 = Inr 30
   \<and> percentile amd64 [10, 20, 30, 40, 50] 75 = Inr 40
   \<and> [100, 200] \<noteq> ([] :: int list) \<and> length [100, 200 :: int] \<le> 2 ^ 45
   \<and> percentile amd64 [100, 200] 25 = Inr 100
   \<and> percentile amd64 [100, 200] 75 = Inr 200"
  using percentile_rule [of "[10, 20, 30, 40, 50]" 25 amd64]
    percentile_rule [of "[10, 20, 30, 40, 50]" 50 amd64]
    percentile_rule [of "[10, 20, 30, 40, 50]" 75 amd64]
    percentile_rule [of "[100, 200]" 25 amd64]
    percentile_rule [of "[100, 200]" 75 amd64]
  by (simp add: round_half_away_def floor_numeral_div floor_one_div)

section \<open>The histogram buckets\<close>

subsection \<open>Minimum, maximum and the quotient by the bucket width\<close>

lemma wrap64_id: "- (2 ^ 63) \<le> x \<Longrightarrow> x < 2 ^ 63 \<Longrightarrow> wrap64 x = x"
  by (simp add: wrap64_def)

lemma min_max_loop_Min_Max:
  "min_max_loop ts (lo, hi) = (Min (insert lo (set ts)), Max (insert hi (set ts)))"
proof (induction ts arbitrary: lo hi)
  case Nil
  then show ?case by simp
next
  case (Cons t ts)
  have "Min (insert (if t < lo then t else lo) (set ts)) = Min (insert lo (insert t (set ts)))"
    by (cases "set ts = {}") (auto simp add: min_def)
  moreover have "Max (insert (if hi < t then t else hi) (set ts)) = Max (insert hi (insert t (set ts)))"
    by (cases "set ts = {}") (auto simp add: max_def)
  ultimately show ?case by (simp add: Cons.IH)
qed

lemma min_max_loop_first:
  assumes "ts \<noteq> []"
  shows "min_max_loop ts (ts ! 0, ts ! 0) = (Min (set ts), Max (set ts))"
proof -
  have "ts ! 0 \<in> set ts" using assms by simp
  then have "insert (ts ! 0) (set ts) = set ts" by auto
  then show ?thesis by (simp add: min_max_loop_Min_Max)
qed

lemma rnd_qmax: "rnd qmax = qmax"
proof -
  have "qmax = of_int 5629499534213121 * pow2 (- 48)" by (simp add: qmax_def pow2_def)
  moreover have "rnd (of_int 5629499534213121 * pow2 (- 48)) = of_int 5629499534213121 * pow2 (- 48)"
    by (rule rnd_dyadic) simp_all
  ultimately show ?thesis by simp
qed

lemma rnd_span:
  assumes "1 \<le> D" and "D < 2 ^ 63"
  shows "1 \<le> rnd (of_int D)" and "rnd (of_int D) \<le> 2 ^ 63"
proof -
  have "rnd (of_int 1) \<le> rnd (of_int D)" using assms(1) by (intro rnd_mono) simp
  then show "1 \<le> rnd (of_int D)" using rnd_of_int [of 1] by simp
  have "(of_int D :: rat) \<le> 2 ^ 63" using assms(2) by simp
  then have "rnd (of_int D) \<le> rnd (2 ^ 63)" by (rule rnd_mono)
  moreover have "rnd (2 ^ 63) = 2 ^ 63" using rnd_dyadic [of 1 63] by (simp add: pow2_def)
  ultimately show "rnd (of_int D) \<le> 2 ^ 63" by simp
qed

lemma width_bounds:
  assumes "1 \<le> D'" and "D' \<le> 2 ^ 63"
  defines "w \<equiv> rnd (D' / 20)"
  shows "0 < w" and "D' \<le> qmax * w" and "w \<le> 2 ^ 63"
proof -
  have "pow2 (- 1022) \<le> pow2 (- 5)" by (rule pow2_mono) simp
  also have "pow2 (- 5) \<le> 1 / 20" by (simp add: pow2_def)
  also have "\<dots> \<le> D' / 20" using assms(1) by simp
  finally have "\<bar>w - D' / 20\<bar> \<le> D' / 20 / 2 ^ 53" unfolding w_def by (rule rnd_rel_error)
  then have lo: "D' / 20 - D' / 20 / 2 ^ 53 \<le> w" by linarith
  then show "0 < w" using assms(1) by simp
  have "qmax * (D' / 20 - D' / 20 / 2 ^ 53) \<le> qmax * w"
    using lo by (intro mult_left_mono) (simp_all add: qmax_def)
  moreover have "D' \<le> qmax * (D' / 20 - D' / 20 / 2 ^ 53)"
    using assms(1) by (simp add: qmax_def field_simps)
  ultimately show "D' \<le> qmax * w" by linarith
  have "D' / 20 \<le> 2 ^ 63" using assms(2) by simp
  then have "w \<le> rnd (2 ^ 63)" unfolding w_def by (rule rnd_mono)
  moreover have "rnd (2 ^ 63) = 2 ^ 63" using rnd_dyadic [of 1 63] by (simp add: pow2_def)
  ultimately show "w \<le> 2 ^ 63" by simp
qed

lemma quotient_bounds:
  assumes "0 \<le> d" and "d \<le> D" and "1 \<le> D" and "D < 2 ^ 63"
  defines "w \<equiv> rnd (rnd (of_int D) / 20)"
  defines "q \<equiv> rnd (rnd (of_int d) / w)"
  shows "0 \<le> q" and "q \<le> qmax" and "\<bar>rnd (of_int d) / w\<bar> \<le> 2 ^ 100"
proof -
  note sp = rnd_span [OF assms(3,4)]
  note wb = width_bounds [OF sp, folded w_def]
  have d0: "0 \<le> rnd (of_int d)" using assms(1) by (intro rnd_nonneg) simp
  have "rnd (of_int d) \<le> rnd (of_int D)" using assms(2) by (intro rnd_mono) simp
  then have dw: "rnd (of_int d) \<le> qmax * w" using wb(2) by linarith
  have q0: "0 \<le> rnd (of_int d) / w" using d0 wb(1) by simp
  then show "0 \<le> q" unfolding q_def by (rule rnd_nonneg)
  have qm: "rnd (of_int d) / w \<le> qmax" using dw wb(1) by (simp add: field_simps)
  then have "q \<le> rnd qmax" unfolding q_def by (rule rnd_mono)
  then show "q \<le> qmax" by (simp add: rnd_qmax)
  have "qmax \<le> 2 ^ 100" by (simp add: qmax_def)
  then show "\<bar>rnd (of_int d) / w\<bar> \<le> 2 ^ 100" using q0 qm by linarith
qed

subsection \<open>The index of a sample\<close>

lemma f64_of_int_64:
  assumes "- (2 ^ 63) \<le> i" and "i < 2 ^ 63"
  shows "f64_of_int i = Fin (rnd (of_int i))"
proof -
  have "\<bar>i\<bar> \<le> 2 ^ 63" using assms by linarith
  then have "(of_int \<bar>i\<bar> :: rat) \<le> of_int (2 ^ 63)" by (simp only: of_int_le_iff)
  then have "\<bar>of_int i :: rat\<bar> \<le> 2 ^ 63" by simp
  moreover have "(2 :: rat) ^ 63 \<le> 2 ^ 100" by simp
  ultimately have "\<bar>of_int i :: rat\<bar> \<le> 2 ^ 100" by linarith
  then show ?thesis by (simp add: f64_of_int_def to_f64_Fin)
qed

lemma f64_of_int_20: "f64_of_int (int numBuckets) = Fin 20"
  using f64_of_int_exact [of 20] by (simp add: numBuckets_def)

lemma bucket_size_width:
  assumes "0 \<le> mn" and "mn < mx" and "mx < 2 ^ 63"
  shows "bucket_size mn mx = Fin (spec_width mn mx)"
proof -
  have s: "sub64 mx mn = mx - mn" using assms by (simp add: sub64_def wrap64_id)
  have D: "1 \<le> mx - mn" "mx - mn < 2 ^ 63" using assms by linarith+
  note sp = rnd_span [OF D]
  have "\<bar>rnd (of_int (mx - mn)) / 20\<bar> \<le> 2 ^ 63" using sp by simp
  moreover have "(2 :: rat) ^ 63 \<le> 2 ^ 100" by simp
  ultimately have "\<bar>rnd (of_int (mx - mn)) / 20\<bar> \<le> 2 ^ 100" by linarith
  then have "to_f64 (rnd (of_int (mx - mn)) / 20) = Fin (spec_width mn mx)"
    by (simp add: to_f64_Fin spec_width_def)
  moreover have "f64_of_int (mx - mn) = Fin (rnd (of_int (mx - mn)))"
    using D by (intro f64_of_int_64) simp_all
  ultimately show ?thesis by (simp add: bucket_size_def s f64_of_int_20)
qed

lemma floor_qmax:
  assumes "0 \<le> q" and "q \<le> qmax"
  shows "0 \<le> \<lfloor>q\<rfloor>" and "\<lfloor>q\<rfloor> \<le> 20"
proof -
  show "0 \<le> \<lfloor>q\<rfloor>" using assms(1) by simp
  have "q < 21" using assms(2) by (simp add: qmax_def)
  then show "\<lfloor>q\<rfloor> \<le> 20" by (simp add: floor_le_iff)
qed

lemma bucket_of_spec:
  assumes "0 \<le> mn" and "mn \<le> t" and "t \<le> mx" and "mn < mx" and "mx < 2 ^ 63"
  shows "bucket_of cv mn (bucket_size mn mx) t = spec_bucket mn mx t"
    and "0 \<le> spec_bucket mn mx t" and "spec_bucket mn mx t < 20"
proof -
  define d where "d = t - mn"
  define w where "w = spec_width mn mx"
  define q where "q = rnd (rnd (of_int d) / w)"
  have d: "0 \<le> d" "d \<le> mx - mn" "1 \<le> mx - mn" "mx - mn < 2 ^ 63"
    using assms by (simp_all add: d_def)
  note qb = quotient_bounds [OF d, folded spec_width_def, folded w_def, folded q_def]
  define r where "r = \<lfloor>q\<rfloor>"
  note fq = floor_qmax [OF qb(1,2), folded r_def]
  have w0: "w \<noteq> 0"
    using width_bounds(1) [OF rnd_span [OF d(3,4)]] by (simp add: w_def spec_width_def)
  have s: "sub64 t mn = d" using assms d by (simp add: sub64_def wrap64_id d_def)
  have fd: "f64_of_int d = Fin (rnd (of_int d))" using d by (intro f64_of_int_64) linarith+
  have "to_f64 (rnd (of_int d) / w) = Fin q" using qb(3) by (simp add: to_f64_Fin q_def)
  then have dv: "fdiv (f64_of_int d) (Fin w) = Fin q" using w0 by (simp add: fd)
  have tr: "trunc q = r" using qb(1) by (simp add: trunc_def r_def)
  have "int_of_f64 cv (Fin q) = r" using fq by (simp add: tr)
  then have "bucket_of cv mn (Fin w) t = (if r = 20 then 19 else r)"
    by (simp add: bucket_of_def s dv numBuckets_def Let_def)
  moreover have sb: "spec_bucket mn mx t = (if r = 20 then 19 else r)"
    by (simp add: spec_bucket_def Let_def r_def q_def w_def d_def)
  ultimately show "bucket_of cv mn (bucket_size mn mx) t = spec_bucket mn mx t"
    using bucket_size_width [OF assms(1,4,5)] by (simp add: w_def)
  show "0 \<le> spec_bucket mn mx t" "spec_bucket mn mx t < 20"
    unfolding sb using fq by auto
qed

text \<open>The third loop, when every index is in range: it counts, bucket by bucket.\<close>

lemma fill_buckets_counts:
  assumes "\<forall>t \<in> set ts. 0 \<le> bucket_of cv mn w t \<and> bucket_of cv mn w t < int (length buckets)"
  shows "fill_buckets cv mn w ts buckets
    = Inr (map (\<lambda>k. buckets ! k + length (filter (\<lambda>t. bucket_of cv mn w t = int k) ts))
             [0..<length buckets])"
  using assms
proof (induction ts arbitrary: buckets)
  case Nil
  then show ?case by (simp add: map_nth)
next
  case (Cons t ts)
  define b where "b = nat (bucket_of cv mn w t)"
  have b: "bucket_of cv mn w t = int b" "b < length buckets" using Cons.prems by (auto simp add: b_def)
  define buckets' where "buckets' = buckets[b := buckets ! b + 1]"
  have len: "length buckets' = length buckets" by (simp add: buckets'_def)
  have "\<forall>t \<in> set ts. 0 \<le> bucket_of cv mn w t \<and> bucket_of cv mn w t < int (length buckets')"
    using Cons.prems by (simp add: len)
  from Cons.IH [OF this]
  have "fill_buckets cv mn w (t # ts) buckets
    = Inr (map (\<lambda>k. buckets' ! k + length (filter (\<lambda>t. bucket_of cv mn w t = int k) ts))
             [0..<length buckets])"
    using b by (simp add: Let_def buckets'_def)
  also have "map (\<lambda>k. buckets' ! k + length (filter (\<lambda>t. bucket_of cv mn w t = int k) ts))
             [0..<length buckets]
    = map (\<lambda>k. buckets ! k + length (filter (\<lambda>t. bucket_of cv mn w t = int k) (t # ts)))
             [0..<length buckets]"
    using b by (auto simp add: buckets'_def nth_list_update)
  finally show ?case .
qed

lemma sum_list_bucket_counts:
  assumes "\<forall>t \<in> set ts. f t < n"
  shows "sum_list (map (\<lambda>k. length (filter (\<lambda>t. f t = k) ts)) [0..<n]) = length ts"
  using assms
proof (induction ts)
  case Nil
  then show ?case by simp
next
  case (Cons t ts)
  have "sum_list (map (\<lambda>k. length (filter (\<lambda>t. f t = k) (t # ts))) [0..<n])
      = sum_list (map (\<lambda>k. (if f t = k then 1 else 0) + length (filter (\<lambda>t. f t = k) ts)) [0..<n])"
    by (intro arg_cong [where f = sum_list] map_cong) auto
  also have "\<dots> = sum_list (map (\<lambda>k. if f t = k then 1 else 0) [0..<n])
      + sum_list (map (\<lambda>k. length (filter (\<lambda>t. f t = k) ts)) [0..<n])"
    by (simp add: sum_list_addf)
  also have "sum_list (map (\<lambda>k. if f t = k then 1 else 0) [0..<n]) = (1::nat)"
    using Cons.prems by (simp add: interv_sum_list_conv_sum_set_nat)
  finally show ?case using Cons by simp
qed

subsection \<open>The buckets when the times differ\<close>

lemma histogram_buckets_spread:
  assumes "ts \<noteq> []" and "\<forall>t \<in> set ts. 0 \<le> t \<and> t < 2 ^ 63" and "Min (set ts) < Max (set ts)"
  shows "histogram_buckets cv ts
    = Inr (map (\<lambda>k. length (filter (\<lambda>t. spec_bucket (Min (set ts)) (Max (set ts)) t = int k) ts))
             [0..<20])"
proof -
  define mn where "mn = Min (set ts)"
  define mx where "mx = Max (set ts)"
  have fin: "finite (set ts)" "set ts \<noteq> {}" using assms(1) by simp_all
  have "mn \<in> set ts" "mx \<in> set ts"
    unfolding mn_def mx_def by (rule Min_in [OF fin], rule Max_in [OF fin])
  then have b: "0 \<le> mn" "mx < 2 ^ 63" using assms(2) by auto
  have lt: "mn < mx" using assms(3) by (simp add: mn_def mx_def)
  have each: "bucket_of cv mn (bucket_size mn mx) t = spec_bucket mn mx t
      \<and> 0 \<le> spec_bucket mn mx t \<and> spec_bucket mn mx t < 20" if "t \<in> set ts" for t
  proof -
    have "mn \<le> t" "t \<le> mx" using that fin unfolding mn_def mx_def by simp_all
    then show ?thesis
      using bucket_of_spec(1) [OF b(1) _ _ lt b(2), where t = t and cv = cv]
        bucket_of_spec(2,3) [OF b(1) _ _ lt b(2), where t = t]
      by simp
  qed
  then have "\<forall>t \<in> set ts. 0 \<le> bucket_of cv mn (bucket_size mn mx) t
      \<and> bucket_of cv mn (bucket_size mn mx) t < int (length (replicate numBuckets (0::nat)))"
    by (simp add: numBuckets_def)
  from fill_buckets_counts [OF this]
  have "histogram_buckets cv ts
    = Inr (map (\<lambda>k. length (filter (\<lambda>t. bucket_of cv mn (bucket_size mn mx) t = int k) ts))
            [0..<20])"
    using assms(1) by (simp add: histogram_buckets_def min_max_loop_first mn_def mx_def numBuckets_def)
  also have "map (\<lambda>k. length (filter (\<lambda>t. bucket_of cv mn (bucket_size mn mx) t = int k) ts)) [0..<20]
    = map (\<lambda>k. length (filter (\<lambda>t. spec_bucket mn mx t = int k) ts)) [0..<20]"
    using each by (intro map_cong refl arg_cong [where f = length] filter_cong) simp_all
  finally show ?thesis by (simp add: mn_def mx_def)
qed

lemma spec_bucket_range:
  assumes "ts \<noteq> []" and "\<forall>t \<in> set ts. 0 \<le> t \<and> t < 2 ^ 63" and "Min (set ts) < Max (set ts)"
    and "t \<in> set ts"
  shows "0 \<le> spec_bucket (Min (set ts)) (Max (set ts)) t"
    and "spec_bucket (Min (set ts)) (Max (set ts)) t < 20"
proof -
  have fin: "finite (set ts)" "set ts \<noteq> {}" using assms(1) by simp_all
  have "Min (set ts) \<in> set ts" "Max (set ts) \<in> set ts"
    by (rule Min_in [OF fin], rule Max_in [OF fin])
  then have b: "0 \<le> Min (set ts)" "Max (set ts) < 2 ^ 63" using assms(2) by auto
  have "Min (set ts) \<le> t" "t \<le> Max (set ts)" using assms(4) fin by simp_all
  then show "0 \<le> spec_bucket (Min (set ts)) (Max (set ts)) t"
    and "spec_bucket (Min (set ts)) (Max (set ts)) t < 20"
    using bucket_of_spec(2,3) [OF b(1) _ _ assms(3) b(2), where t = t] by simp_all
qed

lemma histogram_buckets_sum:
  assumes "ts \<noteq> []" and "\<forall>t \<in> set ts. 0 \<le> t \<and> t < 2 ^ 63" and "Min (set ts) < Max (set ts)"
  shows "\<exists>buckets. histogram_buckets cv ts = Inr buckets \<and> length buckets = 20
      \<and> sum_list buckets = length ts"
proof -
  define f where "f = (\<lambda>t. nat (spec_bucket (Min (set ts)) (Max (set ts)) t))"
  have r: "0 \<le> spec_bucket (Min (set ts)) (Max (set ts)) t
      \<and> spec_bucket (Min (set ts)) (Max (set ts)) t < 20" if "t \<in> set ts" for t
    using spec_bucket_range [OF assms that] by simp
  have eq: "map (\<lambda>k. length (filter (\<lambda>t. spec_bucket (Min (set ts)) (Max (set ts)) t = int k) ts)) [0..<20]
      = map (\<lambda>k. length (filter (\<lambda>t. f t = k) ts)) [0..<20]"
    using r by (intro map_cong refl arg_cong [where f = length] filter_cong) (auto simp add: f_def)
  have "f t < 20" if "t \<in> set ts" for t
    using r [OF that] unfolding f_def by linarith
  then have "\<forall>t \<in> set ts. f t < 20" by blast
  then have s: "sum_list (map (\<lambda>k. length (filter (\<lambda>t. f t = k) ts)) [0..<20]) = length ts"
    by (rule sum_list_bucket_counts)
  have "histogram_buckets cv ts = Inr (map (\<lambda>k. length (filter (\<lambda>t. f t = k) ts)) [0..<20])"
    using histogram_buckets_spread [OF assms(1-3), of cv] unfolding eq .
  then show ?thesis using s by simp
qed

lemma max_count_loop_ge: "m \<le> max_count_loop cs m"
proof (induction cs arbitrary: m)
  case Nil
  then show ?case by simp
next
  case (Cons c cs)
  have "m \<le> (if m < c then c else m)" by simp
  also have "\<dots> \<le> max_count_loop cs (if m < c then c else m)" by (rule Cons.IH)
  finally show ?case by simp
qed

lemma max_count_loop_member: "c \<in> set cs \<Longrightarrow> c \<le> max_count_loop cs m"
proof (induction cs arbitrary: m)
  case Nil
  then show ?case by simp
next
  case (Cons a cs)
  show ?case
  proof (cases "c = a")
    case True
    have "c \<le> (if m < a then a else m)" using True by simp
    also have "\<dots> \<le> max_count_loop cs (if m < a then a else m)" by (rule max_count_loop_ge)
    finally show ?thesis by simp
  next
    case False
    then show ?thesis using Cons by simp
  qed
qed

lemma max_count_loop_pos:
  assumes "0 < sum_list cs"
  shows "0 < max_count_loop cs 0"
proof -
  obtain c where "c \<in> set cs" "0 < c" using assms by (induction cs) auto
  then show ?thesis using max_count_loop_member [of c cs 0] by linarith
qed

lemma hist_lines_counts:
  assumes "0 < maxCount"
  shows "snd (hist_lines cv mn w maxCount i buckets outs) = None
    \<and> map hist_count (fst (hist_lines cv mn w maxCount i buckets outs))
        = map hist_count outs @ buckets"
  using assms by (induction buckets arbitrary: i outs) (simp_all add: Let_def)

lemma printASCIIHistogram_buckets:
  assumes "successful_times results \<noteq> []"
    and "min_max_loop (successful_times results)
           (successful_times results ! 0, successful_times results ! 0) = (mn, mx)"
  shows "printASCIIHistogram cv results =
    (case histogram_buckets cv (successful_times results) of
       Inl e \<Rightarrow> ([], Some e)
     | Inr buckets \<Rightarrow>
         hist_lines cv mn (bucket_size mn mx) (max_count_loop buckets 0) 0 buckets [HistHeader])"
  using assms
  by (simp add: printASCIIHistogram_def histogram_buckets_def hist_times_filter
      successful_times_def Let_def)

text \<open>
  Claim C3.  When the successful times are not all equal (and are non-negative
  \<^verbatim>\<open>int64\<close> values), the bucket loop ends without a panic, on every platform, and bucket
  \<open>k\<close> counts the samples whose index by the rule of the specification is \<open>k\<close>:
  \<open>floor ((sample - min) / width)\<close> with \<open>width = (max - min) / 20\<close>, computed in
  \<^verbatim>\<open>float64\<close>, with 20 clamped to 19.  Every index lies between 0 and 19.
\<close>

theorem bucket_assignment:
  assumes "ts \<noteq> []" and "\<forall>t \<in> set ts. 0 \<le> t \<and> t < 2 ^ 63" and "Min (set ts) < Max (set ts)"
  shows "histogram_buckets cv ts
      = Inr (map (\<lambda>k. length (filter (\<lambda>t. spec_bucket (Min (set ts)) (Max (set ts)) t = int k) ts))
               [0..<20])
    \<and> (\<forall>t \<in> set ts. 0 \<le> spec_bucket (Min (set ts)) (Max (set ts)) t
                     \<and> spec_bucket (Min (set ts)) (Max (set ts)) t \<le> 19)"
proof -
  have "0 \<le> spec_bucket (Min (set ts)) (Max (set ts)) t
      \<and> spec_bucket (Min (set ts)) (Max (set ts)) t \<le> 19" if "t \<in> set ts" for t
    using spec_bucket_range [OF assms that] by simp
  then show ?thesis using histogram_buckets_spread [OF assms, of cv] by blast
qed

theorem bucket_assignment_witness:
  "[0, 0, 0, 100] \<noteq> ([] :: int list)
   \<and> (0 :: int) \<le> 0 \<and> (0 :: int) < 2 ^ 63 \<and> (0 :: int) \<le> 100 \<and> (100 :: int) < 2 ^ 63
   \<and> Min (set [0, 0, 0, 100 :: int]) < Max (set [0, 0, 0, 100 :: int])
   \<and> spec_width 0 100 = 5
   \<and> \<lfloor>rnd (rnd (of_int (100 - 0)) / spec_width 0 100)\<rfloor> = 20
   \<and> spec_bucket 0 100 100 = 19
   \<and> spec_bucket 0 100 0 = 0
   \<and> histogram_buckets amd64 [0, 0, 0, 100]
       = Inr [3, 0, 0, 0, 0, 0, 0, 0, 0, 0, 0, 0, 0, 0, 0, 0, 0, 0, 0, 1]"
proof -
  have w: "spec_width 0 100 = 5" by (simp add: spec_width_def rnd_numeral)
  have b: "spec_bucket 0 100 100 = 19" "spec_bucket 0 100 0 = 0"
    by (simp_all add: spec_bucket_def w rnd_numeral rnd_0)
  have h: "[0, 0, 0, 100] \<noteq> ([] :: int list)"
    "\<forall>t \<in> set [0, 0, 0, 100 :: int]. 0 \<le> t \<and> t < 2 ^ 63"
    "Min (set [0, 0, 0, 100 :: int]) < Max (set [0, 0, 0, 100 :: int])"
    by simp_all
  from bucket_assignment [OF h, of amd64]
  have "histogram_buckets amd64 [0, 0, 0, 100]
       = Inr [3, 0, 0, 0, 0, 0, 0, 0, 0, 0, 0, 0, 0, 0, 0, 0, 0, 0, 0, 1]"
    by (simp add: upt_20 b)
  then show ?thesis using w b by (simp add: rnd_numeral)
qed


text \<open>
  The floor is that of the rounded \<^verbatim>\<open>float64\<close> quotient.  For the times 0, 33 and 44 the
  width 2.2 is not a binary64 value and 33 divided by the rounded width rounds to a value
  just below 15: the sample 33 lands in bucket 14, where exact arithmetic gives 15.
\<close>

lemma float_quotient_below_exact:
  "spec_bucket 0 44 33 = 14 \<and> \<lfloor>of_int (33 - 0) / (of_int (44 - 0) / 20) :: rat\<rfloor> = 15"
  by code_simp

text \<open>
  Claim C8.  When the successful times are not all equal, \<^verbatim>\<open>printASCIIHistogram\<close>
  ends without a panic and prints the header and 20 lines whose counts add up to the
  number of successful samples.
\<close>

theorem histogram_counts_total:
  assumes "\<forall>t \<in> set (successful_times results). 0 \<le> t \<and> t < 2 ^ 63"
    and "successful_times results \<noteq> []"
    and "Min (set (successful_times results)) < Max (set (successful_times results))"
  shows "snd (printASCIIHistogram cv results) = None
    \<and> length (fst (printASCIIHistogram cv results)) = 21
    \<and> sum_list (map hist_count (fst (printASCIIHistogram cv results)))
        = length (successful_times results)"
proof -
  define ts where "ts = successful_times results"
  obtain buckets where b: "histogram_buckets cv ts = Inr buckets" "length buckets = 20"
    "sum_list buckets = length ts"
    using histogram_buckets_sum [OF assms(2,1,3), of cv] unfolding ts_def by blast
  have "0 < sum_list buckets" using b(3) assms(2) by (simp add: ts_def)
  then have m: "0 < max_count_loop buckets 0" by (rule max_count_loop_pos)
  obtain mn mx where mm: "min_max_loop ts (ts ! 0, ts ! 0) = (mn, mx)"
    by (cases "min_max_loop ts (ts ! 0, ts ! 0)") auto
  have p: "printASCIIHistogram cv results
      = hist_lines cv mn (bucket_size mn mx) (max_count_loop buckets 0) 0 buckets [HistHeader]"
    using printASCIIHistogram_buckets [OF assms(2) mm [unfolded ts_def], of cv] b(1)
    by (simp add: ts_def)
  note h = hist_lines_counts [OF m, of cv mn "bucket_size mn mx" 0 buckets "[HistHeader]"]
  have "length (fst (printASCIIHistogram cv results))
      = length (map hist_count (fst (printASCIIHistogram cv results)))" by simp
  also have "\<dots> = length (map hist_count [HistHeader] @ buckets)"
    unfolding p by (simp only: conjunct2 [OF h])
  finally have "length (fst (printASCIIHistogram cv results)) = 21" using b(2) by simp
  then show ?thesis unfolding p using h b(3) by (simp add: ts_def)
qed

theorem histogram_counts_total_witness:
  "successful_times [\<lparr>time = 0, err = None\<rparr>, \<lparr>time = 7, err = Some ''timeout''\<rparr>,
      \<lparr>time = 0, err = None\<rparr>, \<lparr>time = 0, err = None\<rparr>, \<lparr>time = 100, err = None\<rparr>] = [0, 0, 0, 100]
   \<and> (0 :: int) \<le> 0 \<and> (0 :: int) < 2 ^ 63 \<and> (0 :: int) \<le> 100 \<and> (100 :: int) < 2 ^ 63
   \<and> Min (set [0, 0, 0, 100 :: int]) < Max (set [0, 0, 0, 100 :: int])
   \<and> snd (printASCIIHistogram amd64 [\<lparr>time = 0, err = None\<rparr>, \<lparr>time = 7, err = Some ''timeout''\<rparr>,
      \<lparr>time = 0, err = None\<rparr>, \<lparr>time = 0, err = None\<rparr>, \<lparr>time = 100, err = None\<rparr>]) = None
   \<and> sum_list (map hist_count (fst (printASCIIHistogram amd64
       [\<lparr>time = 0, err = None\<rparr>, \<lparr>time = 7, err = Some ''timeout''\<rparr>,
        \<lparr>time = 0, err = None\<rparr>, \<lparr>time = 0, err = None\<rparr>, \<lparr>time = 100, err = None\<rparr>]))) = 4"
proof -
  let ?rs = "[\<lparr>time = 0, err = None\<rparr>, \<lparr>time = 7, err = Some ''timeout''\<rparr>,
      \<lparr>time = 0, err = None\<rparr>, \<lparr>time = 0, err = None\<rparr>, \<lparr>time = 100, err = None\<rparr>]"
  have s: "successful_times ?rs = [0, 0, 0, 100]" by (simp add: successful_times_def)
  have h: "\<forall>t \<in> set (successful_times ?rs). 0 \<le> t \<and> t < 2 ^ 63"
    "successful_times ?rs \<noteq> []"
    "Min (set (successful_times ?rs)) < Max (set (successful_times ?rs))"
    unfolding s by simp_all
  from histogram_counts_total [OF h, of amd64] show ?thesis unfolding s by simp
qed


subsection \<open>The buckets when all times are equal\<close>

lemma bucket_size_zero: "bucket_size c c = Fin 0"
proof -
  have "f64_of_int 0 = Fin 0" using f64_of_int_exact [of 0] by simp
  moreover have "to_f64 0 = Fin 0" using to_f64_Fin [of 0] by (simp add: rnd_0)
  ultimately show ?thesis
    by (simp add: bucket_size_def sub64_def wrap64_def f64_of_int_20)
qed

lemma bucket_of_zero_width:
  "bucket_of cv c (Fin 0) c = (if cv NaN = 20 then 19 else cv NaN)"
proof -
  have "f64_of_int 0 = Fin 0" using f64_of_int_exact [of 0] by simp
  then show ?thesis by (simp add: bucket_of_def sub64_def wrap64_def numBuckets_def Let_def)
qed

lemma fill_buckets_first_out_of_range:
  assumes "\<not> (0 \<le> bucket_of cv mn w t \<and> bucket_of cv mn w t < int (length buckets))"
  shows "fill_buckets cv mn w (t # ts) buckets
    = Inl (IndexOutOfRange (bucket_of cv mn w t) (length buckets))"
  using assms by (auto simp add: Let_def)

lemma zero_variance_buckets:
  fixes cv :: conv
  assumes "ts \<noteq> []" and "\<forall>t \<in> set ts. t = c"
  defines "b \<equiv> (if cv NaN = 20 then 19 else cv NaN)"
  shows "histogram_buckets cv ts =
    (if 0 \<le> b \<and> b < 20
     then Inr (map (\<lambda>k. if int k = b then length ts else 0) [0..<20])
     else Inl (IndexOutOfRange b 20))"
proof -
  have "set ts = {c}" using assms(1,2) by (cases ts) auto
  then have mm: "min_max_loop ts (ts ! 0, ts ! 0) = (c, c)"
    using assms(1) by (simp add: min_max_loop_first)
  have bo: "bucket_of cv c (Fin 0) t = b" if "t \<in> set ts" for t
    using that assms(2) by (simp add: bucket_of_zero_width b_def)
  have hb: "histogram_buckets cv ts = fill_buckets cv c (Fin 0) ts (replicate 20 0)"
    by (simp add: histogram_buckets_def mm bucket_size_zero numBuckets_def)
  show ?thesis
  proof (cases "0 \<le> b \<and> b < 20")
    case True
    then have "\<forall>t \<in> set ts. 0 \<le> bucket_of cv c (Fin 0) t
        \<and> bucket_of cv c (Fin 0) t < int (length (replicate 20 (0::nat)))"
      using bo by simp
    from fill_buckets_counts [OF this]
    have "histogram_buckets cv ts
      = Inr (map (\<lambda>k. length (filter (\<lambda>t. bucket_of cv c (Fin 0) t = int k) ts)) [0..<20])"
      by (simp add: hb)
    also have "map (\<lambda>k. length (filter (\<lambda>t. bucket_of cv c (Fin 0) t = int k) ts)) [0..<20]
      = map (\<lambda>k. if int k = b then length ts else 0) [0..<20]"
    proof (intro map_cong refl)
      fix k
      have "filter (\<lambda>t. bucket_of cv c (Fin 0) t = int k) ts = filter (\<lambda>t. b = int k) ts"
        using bo by (intro filter_cong refl) simp
      then show "length (filter (\<lambda>t. bucket_of cv c (Fin 0) t = int k) ts)
          = (if int k = b then length ts else 0)"
        by auto
    qed
    finally show ?thesis using True by simp
  next
    case False
    obtain t ts' where ts: "ts = t # ts'" using assms(1) by (cases ts) auto
    then have "bucket_of cv c (Fin 0) t = b" using bo by simp
    then have "fill_buckets cv c (Fin 0) ts (replicate 20 0) = Inl (IndexOutOfRange b 20)"
      unfolding ts
      using False fill_buckets_first_out_of_range [of cv c "Fin 0" t "replicate 20 0" ts']
      by simp
    then show ?thesis using False by (simp add: hb)
  qed
qed

lemma zero_variance_arm64:
  assumes "ts \<noteq> []" and "\<forall>t \<in> set ts. t = c"
  shows "histogram_buckets arm64 ts = Inr (length ts # replicate 19 0)"
  using zero_variance_buckets [OF assms, of arm64]
  by (simp add: upt_20 numeral_eq_Suc)

lemma zero_variance_amd64:
  assumes "ts \<noteq> []" and "\<forall>t \<in> set ts. t = c"
  shows "histogram_buckets amd64 ts = Inl (IndexOutOfRange (- (2 ^ 63)) 20)"
  using zero_variance_buckets [OF assms, of amd64]
  by (simp add: amd64_def)


text \<open>
  Claim C1 fails on amd64.  With all successful times equal the bucket width is 0, the
  quotient \<open>0 / 0\<close> is a NaN, and \<^verbatim>\<open>int(NaN)\<close> is \<open>- 2 ^ 63\<close> there: the access
  \<^verbatim>\<open>buckets[bucket]\<close> panics before anything is printed.  One successful probe, the
  default run count, is enough.  (On arm64 the conversion gives 0 and every sample is
  counted in bucket 0, see \<open>zero_variance_arm64\<close>.)
\<close>

theorem zero_variance_crash:
  "histogram_buckets amd64 [42, 42, 42] = Inl (IndexOutOfRange (- (2 ^ 63)) 20)
   \<and> printASCIIHistogram amd64 [\<lparr>time = 42, err = None\<rparr>]
       = ([], Some (IndexOutOfRange (- (2 ^ 63)) 20))
   \<and> snd (main env_ok amd64 (cfg_runs 1)) = Crash (IndexOutOfRange (- (2 ^ 63)) 20)"
proof -
  have a: "histogram_buckets amd64 [42, 42, 42] = Inl (IndexOutOfRange (- (2 ^ 63)) 20)"
    using zero_variance_amd64 [of "[42, 42, 42]" 42] by simp
  have b: "histogram_buckets amd64 [t] = Inl (IndexOutOfRange (- (2 ^ 63)) 20)" for t
    using zero_variance_amd64 [of "[t]" t] by simp
  have c: "printASCIIHistogram amd64 [\<lparr>time = t, err = None\<rparr>]
       = ([], Some (IndexOutOfRange (- (2 ^ 63)) 20))" for t
    using printASCIIHistogram_buckets [of "[\<lparr>time = t, err = None\<rparr>]" t t amd64] b [of t]
    by (simp add: successful_times_def)
  have r: "runSTUNRequests env_ok (cfg_runs 1) =
     (Inr [\<lparr>time = 17, err = None\<rparr>],
      \<lparr>st_results = [\<lparr>time = 17, err = None\<rparr>],
       st_outs = [Println ''Starting STUN requests...'', BarNew 1, YourIP ''203.0.113.7'',
                  BarAdd 1, Println ''''],
       st_do_calls = 1, st_closed = True\<rparr>)"
    by (simp add: runSTUNRequests_def env_ok_def cfg_runs_def init_state_def
      run_loop.simps answer_def handler_def Let_def result_size_def maxAlloc_def)
  have p: "snd (printResults amd64 [\<lparr>time = 17, err = None\<rparr>]) = None"
    by (rule printResults_completes) simp
  obtain o1 where "printResults amd64 [\<lparr>time = 17, err = None\<rparr>] = (o1, None)"
    using p by (cases "printResults amd64 [\<lparr>time = 17, err = None\<rparr>]") auto
  then have "snd (main env_ok amd64 (cfg_runs 1)) = Crash (IndexOutOfRange (- (2 ^ 63)) 20)"
    using c [of 17] by (simp add: main_def r)
  then show ?thesis using a c by simp
qed

section \<open>What the reporters leave in the store\<close>

subsection \<open>Appending and sorting touch new arrays only\<close>

lemma kept_refl: "kept f h h"
  by (simp add: kept_def)

lemma kept_trans: "kept f h h' \<Longrightarrow> kept f h' h'' \<Longrightarrow> kept f h h''"
  by (auto simp add: kept_def)

lemma own_nil: "own f h nil_slice"
  by (simp add: own_def nil_slice_def)

lemma own_length_contents: "own f h s \<Longrightarrow> length (contents h s) = s_len s"
  by (auto simp add: own_def contents_def backing_def split: option.splits)

lemma backing_len_update: "backing h (s\<lparr>s_len := n\<rparr>) = backing h s"
  by (simp add: backing_def)

lemma take_drop_update_last:
  "k + n < length xs \<Longrightarrow> take (Suc n) (drop k (xs[k + n := v])) = take n (drop k xs) @ [v]"
  by (simp add: take_Suc_conv_app_nth drop_update_swap)

lemma store_own:
  assumes "own f h s" and "i < s_cap s"
  shows "kept f h (store s i v h)" and "own f (store s i v h) s"
    and "backing (store s i v h) s = (backing h s)[s_off s + i := v]"
  using assms
  by (auto simp add: own_def kept_def store_def backing_def split: option.splits)

lemma alloc_own:
  assumes "alloc cs h = (s, h')" and "f \<le> h_fresh h"
  shows "kept f h h'" and "own f h' s" and "backing h' s = cs" and "s_len s = length cs"
    and "s_off s = 0"
  using assms by (auto simp add: alloc_def kept_def own_def backing_def)

lemma own_kept_later:
  assumes "own f h s" and "alloc cs h = (s', h')"
  shows "own f h' s" and "backing h' s = backing h s"
  using assms by (auto simp add: own_def alloc_def backing_def split: option.splits)

lemma append_st_own:
  assumes "own f h s" and "f \<le> h_fresh h" and "append_st g s x h = (s', h')"
  shows "own f h' s' \<and> kept f h h' \<and> contents h' s' = contents h s @ [I64 x]"
proof (cases "s_len s < s_cap s")
  case True
  then have eq: "s' = s\<lparr>s_len := s_len s + 1\<rparr>" "h' = store s (s_len s) (I64 x) h"
    using assms(3) by (simp_all add: append_st_def)
  note st = store_own [OF assms(1) True, where v = "I64 x", folded eq(2)]
  have "own f h' s'"
    using st(2) True by (auto simp add: eq(1) own_def backing_len_update split: option.splits)
  moreover have "s_off s + s_len s < length (backing h s)"
    using assms(1) True by (auto simp add: own_def split: option.splits)
  then have "contents h' s' = contents h s @ [I64 x]"
    using st(3) by (simp add: contents_def eq(1) backing_len_update take_drop_update_last)
  ultimately show ?thesis using st(1) by simp
next
  case False
  define newcap where "newcap = max (s_len s + 1) (g (s_cap s))"
  define cs where "cs = contents h s @ I64 x # replicate (newcap - (s_len s + 1)) (I64 0)"
  obtain s1 h1 where al: "alloc cs h = (s1, h1)" by (cases "alloc cs h") auto
  have eq: "s' = s1\<lparr>s_len := s_len s + 1\<rparr>" "h' = h1"
    using assms(3) False al by (simp_all add: append_st_def Let_def newcap_def cs_def)
  note a = alloc_own [OF al assms(2)]
  have len: "length (contents h s) = s_len s" using assms(1) by (rule own_length_contents)
  then have lcs: "length cs = newcap" by (simp add: cs_def newcap_def)
  have "own f h' s'"
    using a(2,3,4) lcs
    by (auto simp add: eq own_def backing_len_update newcap_def split: option.splits)
  moreover have "backing h' s' = cs" using a(3) by (simp add: eq backing_len_update)
  then have "contents h' s' = contents h s @ [I64 x]"
    using a(5) len by (simp add: contents_def eq(1) cs_def)
  ultimately show ?thesis using a(1) by (simp add: eq)
qed

lemma sort_st_own:
  assumes "own f h s"
  shows "kept f h (sort_st s h)" and "own f (sort_st s h) s"
    and "contents (sort_st s h) s = map I64 (sort (map i64_of (contents h s)))"
proof -
  have len: "length (contents h s) = s_len s" using assms by (rule own_length_contents)
  show "kept f h (sort_st s h)"
    using assms by (auto simp add: own_def kept_def sort_st_def split: option.splits)
  show "own f (sort_st s h) s"
    using assms len
    by (auto simp add: own_def sort_st_def backing_def contents_def split: option.splits)
  show "contents (sort_st s h) s = map I64 (sort (map i64_of (contents h s)))"
  proof (cases "s_base s")
    case None
    then show ?thesis using assms by (simp add: sort_st_def contents_def backing_def own_def)
  next
    case (Some a)
    have "s_off s \<le> length (backing h s)"
      using assms Some by (simp add: own_def)
    then have "backing (sort_st s h) s = take (s_off s) (backing h s)
               @ map I64 (sort (map i64_of (contents h s)))
               @ drop (s_off s + s_len s) (backing h s)"
      and "length (take (s_off s) (backing h s)) = s_off s"
      using Some by (simp_all add: sort_st_def backing_def)
    then show ?thesis using len by (simp add: contents_def [of "sort_st s h"])
  qed
qed

subsection \<open>The loops\<close>

lemma kept_fresh: "kept f h h' \<Longrightarrow> f \<le> h_fresh h \<Longrightarrow> f \<le> h_fresh h'"
  by (simp add: kept_def)

lemma results_loop_st_kept:
  assumes "own f h succ" and "f \<le> h_fresh h"
    and "results_loop_st g rs is (succ, e, outs, h) = (p, succ', e', outs', h')"
  shows "own f h' succ' \<and> kept f h h'"
  using assms
proof (induction "is" arbitrary: succ e outs h)
  case Nil
  then show ?case by (simp add: kept_refl)
next
  case (Cons i "is")
  show ?case
  proof (cases "load h rs i")
    case None
    then show ?thesis using Cons.prems by (simp add: kept_refl)
  next
    case (Some c)
    show ?thesis
    proof (cases c)
      case (I64 x)
      then show ?thesis using Cons.prems Some by (simp add: kept_refl)
    next
      case (Res r)
      show ?thesis
      proof (cases "err r")
        case (Some msg)
        then have "results_loop_st g rs is (succ, e + 1, outs, h) = (p, succ', e', outs', h')"
          using Cons.prems(3) \<open>load h rs i = Some c\<close> Res by simp
        from Cons.IH [OF Cons.prems(1,2) this] show ?thesis .
      next
        case None
        obtain s1 h1 where ap: "append_st g succ (time r) h = (s1, h1)"
          by (cases "append_st g succ (time r) h") auto
        note a = append_st_own [OF Cons.prems(1,2) ap]
        have run: "results_loop_st g rs is
            (s1, e, if i = 0 then outs @ [FirstRequestTime (time r)] else outs, h1)
            = (p, succ', e', outs', h')"
          using Cons.prems(3) \<open>load h rs i = Some c\<close> Res None ap by simp
        have o1: "own f h1 s1" and k1: "kept f h h1" using a by simp_all
        have f1: "f \<le> h_fresh h1" using k1 Cons.prems(2) by (rule kept_fresh)
        from Cons.IH [OF o1 f1 run]
        show ?thesis using k1 kept_trans by blast
      qed
    qed
  qed
qed

lemma hist_times_st_kept:
  assumes "own f h succ" and "f \<le> h_fresh h"
    and "hist_times_st g rs is (succ, h) = (p, succ', h')"
  shows "own f h' succ' \<and> kept f h h'"
  using assms
proof (induction "is" arbitrary: succ h)
  case Nil
  then show ?case by (simp add: kept_refl)
next
  case (Cons i "is")
  show ?case
  proof (cases "load h rs i")
    case None
    then show ?thesis using Cons.prems by (simp add: kept_refl)
  next
    case (Some c)
    show ?thesis
    proof (cases c)
      case (I64 x)
      then show ?thesis using Cons.prems Some by (simp add: kept_refl)
    next
      case (Res r)
      show ?thesis
      proof (cases "err r")
        case (Some msg)
        then have "hist_times_st g rs is (succ, h) = (p, succ', h')"
          using Cons.prems(3) \<open>load h rs i = Some c\<close> Res by simp
        from Cons.IH [OF Cons.prems(1,2) this] show ?thesis .
      next
        case None
        obtain s1 h1 where ap: "append_st g succ (time r) h = (s1, h1)"
          by (cases "append_st g succ (time r) h") auto
        note a = append_st_own [OF Cons.prems(1,2) ap]
        have run: "hist_times_st g rs is (s1, h1) = (p, succ', h')"
          using Cons.prems(3) \<open>load h rs i = Some c\<close> Res None ap by simp
        have o1: "own f h1 s1" and k1: "kept f h h1" using a by simp_all
        have f1: "f \<le> h_fresh h1" using k1 Cons.prems(2) by (rule kept_fresh)
        from Cons.IH [OF o1 f1 run]
        show ?thesis using k1 kept_trans by blast
      qed
    qed
  qed
qed

lemma load_Some_less: "load h s i = Some c \<Longrightarrow> i < s_len s"
  by (simp add: load_def split: if_splits)

lemma fill_buckets_st_kept:
  assumes "own f h bk" and "fill_buckets_st cv mn w st is bk h = (p, h')"
  shows "own f h' bk \<and> kept f h h'"
  using assms
proof (induction "is" arbitrary: h)
  case Nil
  then show ?case by (simp add: kept_refl)
next
  case (Cons i "is")
  show ?case
  proof (cases "load h st i")
    case None
    then show ?thesis using Cons.prems by (simp add: kept_refl)
  next
    case (Some c)
    let ?b = "bucket_of cv mn w (i64_of c)"
    show ?thesis
    proof (cases "if 0 \<le> ?b then load h bk (nat ?b) else None")
      case None
      then have "h' = h" using Cons.prems(2) Some by (simp add: Let_def)
      then show ?thesis using Cons.prems(1) by (simp add: kept_refl)
    next
      case inner: (Some n)
      then have "load h bk (nat ?b) = Some n" by (simp split: if_splits)
      then have "nat ?b < s_cap bk"
        using load_Some_less [of h bk "nat ?b" n] Cons.prems(1) by (simp add: own_def)
      note s = store_own(1,2) [OF Cons.prems(1) this, where v = "I64 (i64_of n + 1)"]
      have "fill_buckets_st cv mn w st is bk (store bk (nat ?b) (I64 (i64_of n + 1)) h) = (p, h')"
        using Cons.prems(2) Some inner by (simp add: Let_def)
      from Cons.IH [OF s(2) this] show ?thesis using s(1) kept_trans by blast
    qed
  qed
qed

lemma printResults_st_kept: "kept (h_fresh h) h (snd (printResults_st cv g rs h))"
proof -
  obtain p succ e outs h1
    where run: "results_loop_st g rs [0..<s_len rs] (nil_slice, 0, [], h) = (p, succ, e, outs, h1)"
    by (cases "results_loop_st g rs [0..<s_len rs] (nil_slice, 0, [], h)") auto
  have k: "own (h_fresh h) h1 succ \<and> kept (h_fresh h) h h1"
    using results_loop_st_kept [OF own_nil _ run] by simp
  show ?thesis
  proof (cases p)
    case (Some e)
    then show ?thesis using k by (simp add: printResults_st_def run)
  next
    case None
    show ?thesis
    proof (cases "s_len succ = 0")
      case True
      then show ?thesis using k None by (simp add: printResults_st_def run)
    next
      case False
      have "kept (h_fresh h) h1 (sort_st succ h1)" using k by (intro sort_st_own(1)) simp
      then have "kept (h_fresh h) h (sort_st succ h1)" using k kept_trans by blast
      then show ?thesis using None False by (simp add: printResults_st_def run Let_def)
    qed
  qed
qed

lemma printASCIIHistogram_st_kept: "kept (h_fresh h) h (snd (printASCIIHistogram_st cv g rs h))"
proof -
  obtain p succ h1
    where run: "hist_times_st g rs [0..<s_len rs] (nil_slice, h) = (p, succ, h1)"
    by (cases "hist_times_st g rs [0..<s_len rs] (nil_slice, h)") auto
  have k: "own (h_fresh h) h1 succ \<and> kept (h_fresh h) h h1"
    using hist_times_st_kept [OF own_nil _ run] by simp
  show ?thesis
  proof (cases p)
    case (Some e)
    then show ?thesis using k by (simp add: printASCIIHistogram_st_def run)
  next
    case None
    show ?thesis
    proof (cases "s_len succ = 0")
      case True
      then show ?thesis using k None by (simp add: printASCIIHistogram_st_def run)
    next
      case False
      define ts where "ts = map i64_of (contents h1 succ)"
      obtain mn mx where mm: "min_max_loop ts (ts ! 0, ts ! 0) = (mn, mx)"
        by (cases "min_max_loop ts (ts ! 0, ts ! 0)") auto
      obtain bk h2 where al: "alloc (replicate numBuckets (I64 0)) h1 = (bk, h2)"
        by (cases "alloc (replicate numBuckets (I64 0)) h1") auto
      have f1: "h_fresh h \<le> h_fresh h1" using k by (simp add: kept_def)
      note a = alloc_own(1,2) [OF al f1]
      obtain q h3 where fb: "fill_buckets_st cv mn (bucket_size mn mx) succ [0..<s_len succ] bk h2
          = (q, h3)"
        by (cases "fill_buckets_st cv mn (bucket_size mn mx) succ [0..<s_len succ] bk h2") auto
      have "kept (h_fresh h) h2 h3" using fill_buckets_st_kept [OF a(2) fb] by simp
      then have k3: "kept (h_fresh h) h h3" using k a(1) kept_trans by blast
      have "snd (printASCIIHistogram_st cv g rs h) = h3"
        using None False mm al fb
        by (cases q) (simp_all add: printASCIIHistogram_st_def run Let_def ts_def [symmetric])
      then show ?thesis using k3 by simp
    qed
  qed
qed

lemma kept_contents:
  assumes "kept f h h'" and "s_base s = Some a" and "a < f"
  shows "contents h' s = contents h s"
  using assms by (simp add: kept_def contents_def backing_def)


text \<open>
  Claim C10.  After \<^verbatim>\<open>printResults\<close> and after \<^verbatim>\<open>printASCIIHistogram\<close> the slice of
  outcomes they were given has the elements it had, in the same order, and so has
  every array that existed before the calls: the appends, the sort and the bucket
  counts write to arrays allocated inside the two functions.
\<close>

theorem reporters_keep_outcomes:
  assumes "s_base rs = Some a" and "a < h_fresh h"
  shows "contents (snd (printResults_st cv g rs h)) rs = contents h rs
    \<and> contents (snd (printASCIIHistogram_st cv g rs (snd (printResults_st cv g rs h)))) rs
        = contents h rs
    \<and> (\<forall>b < h_fresh h.
          h_arrays (snd (printASCIIHistogram_st cv g rs (snd (printResults_st cv g rs h)))) b
          = h_arrays h b)"
proof -
  define h1 where "h1 = snd (printResults_st cv g rs h)"
  define h2 where "h2 = snd (printASCIIHistogram_st cv g rs h1)"
  have k1: "kept (h_fresh h) h h1" unfolding h1_def by (rule printResults_st_kept)
  have "kept (h_fresh h1) h1 h2" unfolding h2_def by (rule printASCIIHistogram_st_kept)
  moreover have "h_fresh h \<le> h_fresh h1" using k1 by (simp add: kept_def)
  ultimately have "kept (h_fresh h) h1 h2" by (simp add: kept_def)
  then have k2: "kept (h_fresh h) h h2" using k1 kept_trans by blast
  have "contents h1 rs = contents h rs \<and> contents h2 rs = contents h rs
    \<and> (\<forall>b < h_fresh h. h_arrays h2 b = h_arrays h b)"
    using kept_contents [OF k1 assms(1,2)] kept_contents [OF k2 assms(1,2)] k2
    by (simp add: kept_def)
  then show ?thesis unfolding h2_def h1_def .
qed

theorem reporters_keep_outcomes_witness:
  "s_base slice_example = Some 0 \<and> 0 < h_fresh heap_example
   \<and> contents (snd (printResults_st amd64 double_cap slice_example heap_example)) slice_example
       = [Res \<lparr>time = 30, err = None\<rparr>, Res \<lparr>time = 7, err = Some ''timeout''\<rparr>,
          Res \<lparr>time = 10, err = None\<rparr>, Res \<lparr>time = 20, err = None\<rparr>]
   \<and> contents (snd (printASCIIHistogram_st amd64 double_cap slice_example
         (snd (printResults_st amd64 double_cap slice_example heap_example)))) slice_example
       = [Res \<lparr>time = 30, err = None\<rparr>, Res \<lparr>time = 7, err = Some ''timeout''\<rparr>,
          Res \<lparr>time = 10, err = None\<rparr>, Res \<lparr>time = 20, err = None\<rparr>]"
proof -
  have h: "s_base slice_example = Some 0" "0 < h_fresh heap_example"
    by (simp_all add: slice_example_def heap_example_def)
  have c: "contents heap_example slice_example
       = [Res \<lparr>time = 30, err = None\<rparr>, Res \<lparr>time = 7, err = Some ''timeout''\<rparr>,
          Res \<lparr>time = 10, err = None\<rparr>, Res \<lparr>time = 20, err = None\<rparr>]"
    by (simp add: contents_def backing_def slice_example_def heap_example_def)
  from reporters_keep_outcomes [OF h, of amd64 double_cap] show ?thesis
    using h unfolding c by simp
qed

subsection \<open>The store-level reporters print what the reporters on lists print\<close>

lemma holds_length: "holds h rs results \<Longrightarrow> length results = s_len rs"
proof -
  assume a: "holds h rs results"
  then have "s_off rs + s_len rs \<le> length (backing h rs)" by (simp add: holds_def)
  then have "length (contents h rs) = s_len rs" by (simp add: contents_def)
  moreover have "contents h rs = map Res results" using a by (simp add: holds_def)
  ultimately show ?thesis by simp
qed

lemma contents_nth:
  assumes "i < s_len s" and "s_off s + s_len s \<le> length (backing h s)"
  shows "load h s i = Some (contents h s ! i)"
  using assms by (simp add: load_def contents_def)

lemma holds_load:
  assumes "holds hs rs results" and "kept (h_fresh hs) hs h" and "i < length results"
  shows "load h rs i = Some (Res (results ! i))"
proof -
  obtain a where a: "s_base rs = Some a" "a < h_fresh hs" using assms(1) by (auto simp add: holds_def)
  have b: "backing h rs = backing hs rs" using assms(2) a by (simp add: kept_def backing_def)
  have i: "i < s_len rs" using assms(1,3) holds_length by simp
  have "load hs rs i = Some (contents hs rs ! i)"
    using i assms(1) by (intro contents_nth) (simp_all add: holds_def)
  moreover have "load h rs i = load hs rs i" by (simp add: load_def b)
  ultimately show ?thesis using assms(1,3) by (simp add: holds_def)
qed

lemma results_loop_st_refines:
  assumes "holds hs rs results" and "kept (h_fresh hs) hs h" and "own (h_fresh hs) h succ"
    and "contents h succ = map I64 ts" and "i + n = length results"
    and "results_loop i (drop i results) (ts, e, outs) = (ts', e', outs')"
  shows "\<exists>succ' h'. results_loop_st g rs [i..<length results] (succ, e, outs, h)
      = (None, succ', e', outs', h')
    \<and> own (h_fresh hs) h' succ' \<and> kept (h_fresh hs) hs h' \<and> contents h' succ' = map I64 ts'"
  using assms(2-6)
proof (induction n arbitrary: i h succ ts e outs)
  case 0
  then show ?case by simp
next
  case (Suc n)
  have i: "i < length results" using Suc.prems(4) by simp
  have idx: "[i..<length results] = i # [Suc i..<length results]" using i by (rule upt_conv_Cons)
  have dr: "drop i results = results ! i # drop (Suc i) results"
    using i by (simp add: Cons_nth_drop_Suc)
  have ld: "load h rs i = Some (Res (results ! i))"
    using assms(1) Suc.prems(1) i by (rule holds_load)
  have n: "Suc i + n = length results" using Suc.prems(4) by simp
  show ?case
  proof (cases "err (results ! i)")
    case (Some msg)
    then have "results_loop (Suc i) (drop (Suc i) results) (ts, e + 1, outs) = (ts', e', outs')"
      using Suc.prems(5) by (simp add: dr)
    from Suc.IH [OF Suc.prems(1,2,3) n this]
    show ?thesis using Some ld by (simp add: idx)
  next
    case None
    obtain s1 h1 where ap: "append_st g succ (time (results ! i)) h = (s1, h1)"
      by (cases "append_st g succ (time (results ! i)) h") auto
    have f: "h_fresh hs \<le> h_fresh h" using Suc.prems(1) by (simp add: kept_def)
    note a = append_st_own [OF Suc.prems(2) f ap]
    have k1: "kept (h_fresh hs) hs h1" using a Suc.prems(1) kept_trans by blast
    have c1: "contents h1 s1 = map I64 (ts @ [time (results ! i)])"
      using a Suc.prems(3) by simp
    have "results_loop (Suc i) (drop (Suc i) results)
        (ts @ [time (results ! i)], e,
         if i = 0 then outs @ [FirstRequestTime (time (results ! i))] else outs)
        = (ts', e', outs')"
      using Suc.prems(5) None by (simp add: dr)
    from Suc.IH [OF k1 _ c1 n this] a
    show ?thesis using None ld ap by (simp add: idx)
  qed
qed

lemma hist_times_st_refines:
  assumes "holds hs rs results" and "kept (h_fresh hs) hs h" and "own (h_fresh hs) h succ"
    and "contents h succ = map I64 ts" and "i + n = length results"
  shows "\<exists>succ' h'. hist_times_st g rs [i..<length results] (succ, h) = (None, succ', h')
    \<and> own (h_fresh hs) h' succ' \<and> kept (h_fresh hs) hs h'
    \<and> contents h' succ' = map I64 (hist_times (drop i results) ts)"
  using assms(2-5)
proof (induction n arbitrary: i h succ ts)
  case 0
  then show ?case by simp
next
  case (Suc n)
  have i: "i < length results" using Suc.prems(4) by simp
  have idx: "[i..<length results] = i # [Suc i..<length results]" using i by (rule upt_conv_Cons)
  have dr: "drop i results = results ! i # drop (Suc i) results"
    using i by (simp add: Cons_nth_drop_Suc)
  have ld: "load h rs i = Some (Res (results ! i))"
    using assms(1) Suc.prems(1) i by (rule holds_load)
  have n: "Suc i + n = length results" using Suc.prems(4) by simp
  show ?case
  proof (cases "err (results ! i)")
    case (Some msg)
    from Suc.IH [OF Suc.prems(1,2,3) n]
    show ?thesis using Some ld by (simp add: idx dr)
  next
    case None
    obtain s1 h1 where ap: "append_st g succ (time (results ! i)) h = (s1, h1)"
      by (cases "append_st g succ (time (results ! i)) h") auto
    have f: "h_fresh hs \<le> h_fresh h" using Suc.prems(1) by (simp add: kept_def)
    note a = append_st_own [OF Suc.prems(2) f ap]
    have k1: "kept (h_fresh hs) hs h1" using a Suc.prems(1) kept_trans by blast
    have c1: "contents h1 s1 = map I64 (ts @ [time (results ! i)])"
      using a Suc.prems(3) by simp
    from Suc.IH [OF k1 _ c1 n] a
    show ?thesis using None ld ap by (simp add: idx dr)
  qed
qed

lemma printResults_st_refines:
  assumes "holds h rs results"
  shows "fst (printResults_st cv g rs h) = printResults cv results"
proof -
  obtain ts' e' outs' where pure: "results_loop 0 results ([], 0, []) = (ts', e', outs')"
    by (cases "results_loop 0 results ([], 0, [])") auto
  have c0: "contents h nil_slice = map I64 []" by (simp add: contents_def nil_slice_def)
  have "results_loop 0 (drop 0 results) ([], 0, []) = (ts', e', outs')" using pure by simp
  from results_loop_st_refines [OF assms kept_refl own_nil c0 _ this, of "length results" g]
  obtain succ' h' where run: "results_loop_st g rs [0..<length results] (nil_slice, 0, [], h)
      = (None, succ', e', outs', h')"
    and o: "own (h_fresh h) h' succ'" and c: "contents h' succ' = map I64 ts'"
    by auto
  have len: "s_len succ' = length ts'" using own_length_contents [OF o] c by simp
  have n: "s_len rs = length results" using holds_length [OF assms] by simp
  show ?thesis
  proof (cases "length ts' = 0")
    case True
    then show ?thesis using len by (simp add: printResults_st_def printResults_def n run pure)
  next
    case False
    have "map i64_of (contents (sort_st succ' h') succ') = sort ts'"
      using sort_st_own(3) [OF o] by (simp add: c comp_def)
    then show ?thesis
      using False len by (simp add: printResults_st_def printResults_def n run pure Let_def)
  qed
qed

lemma store_other:
  assumes "s_base s \<noteq> s_base bk"
  shows "backing (store bk i v h) s = backing h s"
  using assms by (auto simp add: store_def backing_def split: option.splits)

lemma store_contents:
  assumes "own f h s" and "i < s_len s"
  shows "contents (store s i v h) s = (contents h s)[i := v]"
proof -
  have "i < s_cap s" using assms by (simp add: own_def)
  from store_own(3) [OF assms(1) this]
  show ?thesis using assms(2) by (simp add: contents_def drop_update_swap take_update_swap)
qed

lemma own_load:
  assumes "own f h s"
  shows "load h s i = (if i < s_len s then Some (contents h s ! i) else None)"
proof (cases "i < s_len s")
  case True
  moreover have "s_off s + s_len s \<le> length (backing h s)"
    using assms True by (auto simp add: own_def split: option.splits)
  ultimately show ?thesis by (simp add: contents_nth)
next
  case False
  then show ?thesis by (simp add: load_def)
qed

lemma fill_buckets_st_refines:
  assumes "s_base st \<noteq> s_base bk" and "s_len st = length ts" and "own f h st"
    and "contents h st = map I64 ts" and "own f h bk"
    and "contents h bk = map (I64 \<circ> int) buckets" and "i + n = length ts"
  shows "case fill_buckets cv mn w (drop i ts) buckets of
      Inl e \<Rightarrow> (\<exists>h'. fill_buckets_st cv mn w st [i..<length ts] bk h = (Some e, h'))
    | Inr buckets' \<Rightarrow>
        (\<exists>h'. fill_buckets_st cv mn w st [i..<length ts] bk h = (None, h')
           \<and> contents h' bk = map (I64 \<circ> int) buckets')"
  using assms(3-7)
proof (induction n arbitrary: i h buckets)
  case 0
  then show ?case by simp
next
  case (Suc n)
  have lb: "s_len bk = length buckets"
    using own_length_contents [OF Suc.prems(3)] Suc.prems(4) by simp
  have i: "i < length ts" using Suc.prems(5) by simp
  have idx: "[i..<length ts] = i # [Suc i..<length ts]" using i by (rule upt_conv_Cons)
  have dr: "drop i ts = ts ! i # drop (Suc i) ts" using i by (simp add: Cons_nth_drop_Suc)
  have ld: "load h st i = Some (I64 (ts ! i))"
    using own_load [OF Suc.prems(1), of i] i assms(2) Suc.prems(2) by simp
  define b where "b = bucket_of cv mn w (ts ! i)"
  show ?case
  proof (cases "0 \<le> b \<and> b < int (length buckets)")
    case False
    then have "(if 0 \<le> b then load h bk (nat b) else None) = None"
      using own_load [OF Suc.prems(3), of "nat b"] lb by auto
    then have "fill_buckets_st cv mn w st [i..<length ts] bk h
        = (Some (IndexOutOfRange b (length buckets)), h)"
      using ld lb by (simp add: idx b_def [symmetric] Let_def)
    moreover have "fill_buckets cv mn w (drop i ts) buckets
        = Inl (IndexOutOfRange b (length buckets))"
      using False by (auto simp add: dr b_def [symmetric] Let_def)
    ultimately show ?thesis by (simp only: sum.case) blast
  next
    case True
    then have nb: "nat b < length buckets" by linarith
    then have lv: "(if 0 \<le> b then load h bk (nat b) else None) = Some (I64 (int (buckets ! nat b)))"
      using own_load [OF Suc.prems(3), of "nat b"] lb True Suc.prems(4) by simp
    define h1 where "h1 = store bk (nat b) (I64 (int (buckets ! nat b) + 1)) h"
    have nc: "nat b < s_cap bk" using nb lb Suc.prems(3) by (simp add: own_def)
    have o1: "own f h1 bk" unfolding h1_def using store_own(2) [OF Suc.prems(3) nc] .
    have bs: "backing h1 st = backing h st" unfolding h1_def using assms(1) by (rule store_other)
    then have c1: "contents h1 st = map I64 ts" using Suc.prems(2) by (simp add: contents_def)
    have os: "own f h1 st"
      using Suc.prems(1) bs store_own(1) [OF Suc.prems(3) nc, of "I64 (int (buckets ! nat b) + 1)"]
      by (auto simp add: own_def kept_def h1_def split: option.splits)
    have "nat b < s_len bk" using nb lb by simp
    then have "contents h1 bk = (contents h bk)[nat b := I64 (int (buckets ! nat b) + 1)]"
      unfolding h1_def by (rule store_contents [OF Suc.prems(3)])
    also have "\<dots> = (map (I64 \<circ> int) buckets)[nat b := (I64 \<circ> int) (buckets ! nat b + 1)]"
      unfolding Suc.prems(4) by (simp add: add.commute)
    also have "\<dots> = map (I64 \<circ> int) (buckets[nat b := buckets ! nat b + 1])"
      by (rule map_update [symmetric])
    finally have cb: "contents h1 bk = map (I64 \<circ> int) (buckets[nat b := buckets ! nat b + 1])" .
    have n: "Suc i + n = length ts" using Suc.prems(5) by simp
    note ih = Suc.IH [OF os c1 o1 cb n]
    have e1: "fill_buckets_st cv mn w st [i..<length ts] bk h
        = fill_buckets_st cv mn w st [Suc i..<length ts] bk h1"
      using ld lv by (simp add: idx b_def [symmetric] Let_def h1_def)
    have e2: "fill_buckets cv mn w (drop i ts) buckets
        = fill_buckets cv mn w (drop (Suc i) ts) (buckets[nat b := buckets ! nat b + 1])"
      using True by (simp add: dr b_def [symmetric] Let_def)
    show ?thesis unfolding e1 e2 by (rule ih)
  qed
qed

lemma printASCIIHistogram_st_refines:
  assumes "holds h rs results"
  shows "fst (printASCIIHistogram_st cv g rs h) = printASCIIHistogram cv results"
proof -
  define ts where "ts = hist_times results []"
  define f where "f = h_fresh h"
  have c0: "contents h nil_slice = map I64 []" by (simp add: contents_def nil_slice_def)
  from hist_times_st_refines [OF assms kept_refl own_nil c0, of 0 "length results" g]
  obtain succ h1 where run: "hist_times_st g rs [0..<length results] (nil_slice, h) = (None, succ, h1)"
    and o: "own f h1 succ" and k: "kept f h h1" and c: "contents h1 succ = map I64 ts"
    by (auto simp add: ts_def f_def)
  have len: "s_len succ = length ts" using own_length_contents [OF o] c by simp
  have n: "s_len rs = length results" using holds_length [OF assms] by simp
  show ?thesis
  proof (cases "length ts = 0")
    case True
    then show ?thesis
      using len by (simp add: printASCIIHistogram_st_def printASCIIHistogram_def n run ts_def)
  next
    case False
    have cts: "map i64_of (contents h1 succ) = ts" by (simp add: c comp_def)
    obtain mn mx where mm: "min_max_loop ts (ts ! 0, ts ! 0) = (mn, mx)"
      by (cases "min_max_loop ts (ts ! 0, ts ! 0)") auto
    obtain bk h2 where al: "alloc (replicate numBuckets (I64 0)) h1 = (bk, h2)"
      by (cases "alloc (replicate numBuckets (I64 0)) h1") auto
    have f1: "f \<le> h_fresh h1" using k by (simp add: kept_def f_def)
    note a = alloc_own [OF al f1]
    note s2 = own_kept_later [OF o al]
    have c2: "contents h2 succ = map I64 ts" using s2(2) c by (simp add: contents_def)
    have cb: "contents h2 bk = map (I64 \<circ> int) (replicate numBuckets 0)"
      using a(3,4,5) by (simp add: contents_def)
    have "s_base bk = Some (h_fresh h1)" using al by (auto simp add: alloc_def)
    moreover have "s_base succ \<noteq> Some (h_fresh h1)"
      using o by (auto simp add: own_def split: option.splits)
    ultimately have ne: "s_base succ \<noteq> s_base bk" by simp
    note r = fill_buckets_st_refines [OF ne len s2(1) c2 a(2) cb, of 0 "length ts" cv mn
        "bucket_size mn mx"]
    show ?thesis
    proof (cases "fill_buckets cv mn (bucket_size mn mx) ts (replicate numBuckets 0)")
      case (Inl e)
      then obtain h3 where "fill_buckets_st cv mn (bucket_size mn mx) succ [0..<length ts] bk h2
          = (Some e, h3)"
        using r by auto
      then show ?thesis
        using False len Inl mm al
        by (simp add: printASCIIHistogram_st_def printASCIIHistogram_def n run ts_def [symmetric]
            cts Let_def)
    next
      case (Inr buckets)
      then obtain h3 where fb: "fill_buckets_st cv mn (bucket_size mn mx) succ [0..<length ts] bk h2
          = (None, h3)" and c3: "contents h3 bk = map (I64 \<circ> int) buckets"
        using r by auto
      have "map (nat \<circ> i64_of) (contents h3 bk) = buckets" by (simp add: c3 comp_def)
      then show ?thesis
        using False len Inr mm al fb
        by (simp add: printASCIIHistogram_st_def printASCIIHistogram_def n run ts_def [symmetric]
            cts Let_def)
    qed
  qed
qed

end
